theory Spec2Isabelle
  imports Main "HOL-Library.Multiset"
begin

section \<open>Python primitives used by the program\<close>

text \<open>
  The program is Python. Its unbounded integers are \<open>int\<close>, its strings are
  \<open>string\<close> (the model covers ASCII text: one \<open>char\<close> per code point), and every
  exception it can raise is a value of \<open>py_error\<close>.
\<close>

datatype py_error =
    AssertionError
  | FileNotFoundError
  | ValueError
  | KeyError string
  | TypeError
  | AttributeError
  | IndexError

subsection \<open>Strings\<close>

text \<open>\<^verbatim>\<open>s.startswith(p)\<close>\<close>

definition startswith :: "string \<Rightarrow> string \<Rightarrow> bool" where
  "startswith s p = (take (length p) s = p)"

text \<open>\<^verbatim>\<open>s.replace(a, b)\<close> for one-character \<open>a\<close> and \<open>b\<close>.\<close>

definition replace_char :: "char \<Rightarrow> char \<Rightarrow> string \<Rightarrow> string" where
  "replace_char a b s = map (\<lambda>c. if c = a then b else c) s"

text \<open>
  \<^verbatim>\<open>s.split(sep, 1)\<close> for a non-empty separator: \<open>Some (before, after)\<close> around the
  first occurrence of \<open>sep\<close>, \<open>None\<close> when \<open>sep\<close> does not occur (Python then returns
  the one-element list \<^verbatim>\<open>[s]\<close>). \<^verbatim>\<open>sep in s\<close> is \<open>split_first sep s \<noteq> None\<close>.
\<close>

fun split_first :: "string \<Rightarrow> string \<Rightarrow> (string \<times> string) option" where
  "split_first sep [] = (if sep = [] then Some ([], []) else None)"
| "split_first sep (c # r) =
     (if startswith (c # r) sep then Some ([], drop (length sep) (c # r))
      else map_option (\<lambda>(a, b). (c # a, b)) (split_first sep r))"

subsection \<open>Decimal text of integers\<close>

definition digit_char :: "nat \<Rightarrow> char" where
  "digit_char d = ''0123456789'' ! d"

text \<open>\<^verbatim>\<open>str(n)\<close> and the \<^verbatim>\<open>{n}\<close> of an f-string, for an integer.\<close>

function str_nat :: "nat \<Rightarrow> string" where
  "str_nat n = (if n < 10 then [digit_char n] else str_nat (n div 10) @ [digit_char (n mod 10)])"
  by pat_completeness auto
termination
  by (relation "measure id") auto

declare str_nat.simps [simp del]

definition str_int :: "int \<Rightarrow> string" where
  "str_int i = (if i < 0 then CHR ''-'' # str_nat (nat (- i)) else str_nat (nat i))"

text \<open>
  \<^verbatim>\<open>int(s)\<close> for a string: surrounding whitespace is stripped, one sign is allowed, and
  the digits may be grouped by single underscores. \<open>None\<close> is Python's ValueError.
  A character is a code point below 256. The whitespace that \<^verbatim>\<open>int\<close> strips is the
  tab, the line feed, the vertical tab, the form feed, the carriage return and the space
  (9 to 13 and 32), and beyond ASCII the next-line character 133 and the no-break space
  160. The separators 28 to 31, which \<^verbatim>\<open>str.strip\<close> would remove, are not stripped:
  \<^verbatim>\<open>int(chr(28) + "7")\<close> is a ValueError.
\<close>

definition is_digit :: "char \<Rightarrow> bool" where
  "is_digit c = (48 \<le> (of_char c :: nat) \<and> (of_char c :: nat) \<le> 57)"

definition digit_val :: "char \<Rightarrow> nat" where
  "digit_val c = of_char c - 48"

definition is_space :: "char \<Rightarrow> bool" where
  "is_space c = (let n = (of_char c :: nat) in (9 \<le> n \<and> n \<le> 13) \<or> n = 32 \<or> n = 133 \<or> n = 160)"

definition strip :: "string \<Rightarrow> string" where
  "strip s = rev (dropWhile is_space (rev (dropWhile is_space s)))"

fun digits_grouped :: "string \<Rightarrow> bool" where
  "digits_grouped [] = False"
| "digits_grouped [c] = is_digit c"
| "digits_grouped (c # d # r) =
     (is_digit c \<and> (if d = CHR ''_'' then digits_grouped r else digits_grouped (d # r)))"

definition parse_digits :: "string \<Rightarrow> nat option" where
  "parse_digits s =
     (if digits_grouped s
      then Some (foldl (\<lambda>n c. 10 * n + digit_val c) 0 (filter is_digit s))
      else None)"

definition py_int :: "string \<Rightarrow> int option" where
  "py_int s =
     (case strip s of
        [] \<Rightarrow> None
      | c # r \<Rightarrow>
          if c = CHR ''-'' then map_option (\<lambda>n. - int n) (parse_digits r)
          else if c = CHR ''+'' then map_option int (parse_digits r)
          else map_option int (parse_digits (c # r)))"

section \<open>Origin key codec\<close>

text \<open>
  The name of a site's storage directory is computed in \<^verbatim>\<open>main\<close> from the
  \<^verbatim>\<open>--site\<close> argument and the container id \<^verbatim>\<open>ctx_id\<close> (0 is the default container,
  the value \<^verbatim>\<open>ctx_id\<close> has when no \<^verbatim>\<open>--userctx\<close> is given):
  \<^verbatim>\<open>
  site_name = args.site.replace(":", "+").replace("/", "+")
  if ctx_id != 0:
      site_name += f"^userContextId={ctx_id}"
  \<close>
\<close>

definition site_name :: "string \<Rightarrow> int \<Rightarrow> string" where
  "site_name site ctx_id =
     (let n = replace_char (CHR ''/'') (CHR ''+'') (replace_char (CHR '':'') (CHR ''+'') site)
      in if ctx_id \<noteq> 0 then n @ ''^userContextId='' @ str_int ctx_id else n)"

text \<open>
  The site argument is an origin, as \<^verbatim>\<open>--list-sites\<close> prints it:
  \<^verbatim>\<open>origin = scheme + "://" + netloc\<close>.
\<close>

definition origin :: "string \<Rightarrow> string \<Rightarrow> string" where
  "origin scheme netloc = scheme @ ''://'' @ netloc"

text \<open>
  The directory of an extension's storage:
  \<^verbatim>\<open>
  origin_label = f"moz-extension+++{ext_uuid}"
  if ctx_id:
      origin_label += f"^userContextId={ctx_id}"
  \<close>
\<close>

definition origin_label :: "string \<Rightarrow> int \<Rightarrow> string" where
  "origin_label ext_uuid ctx_id =
     (let l = ''moz-extension+++'' @ ext_uuid
      in if ctx_id \<noteq> 0 then l @ ''^userContextId='' @ str_int ctx_id else l)"

text \<open>
  Decoding a directory name, in the loop of \<^verbatim>\<open>--list-sites\<close>:
  \<^verbatim>\<open>
  encoded_origin, ctx_name = dirpath.name, ""
  if "^userContextId=" in encoded_origin:
      encoded_origin, ctx_name = encoded_origin.split("^userContextId=", 1)
      try:
          ctx_id = int(ctx_name)
      except ValueError:
          pass  # Keep invalid context IDs as-is
      ...
  scheme, netloc = encoded_origin.split("+++", 1)
  if scheme == "file":
      netloc = netloc.replace("+", "/")
  else:
      netloc = netloc.replace("+", ":")
  \<close>
  The record holds the variables after these lines: \<open>d_ctx_id\<close> is the container id
  read from the suffix (\<open>None\<close> when there is no suffix or it is not a number), and
  \<open>d_ctx_name\<close> the text of the suffix. The lookup of the container's display name for
  that id, which the program does next, reads containers.json and is not part of the
  decoding. Unpacking a split without \<^verbatim>\<open>+++\<close> raises ValueError.
\<close>

record decoded =
  d_scheme :: string
  d_netloc :: string
  d_ctx_id :: "int option"
  d_ctx_name :: string

definition decode_dir_name :: "string \<Rightarrow> py_error + decoded" where
  "decode_dir_name name =
     (let (encoded_origin, ctx_name, ctx_id) =
            (case split_first ''^userContextId='' name of
               None \<Rightarrow> (name, [], None)
             | Some (e, c) \<Rightarrow> (e, c, py_int c))
      in case split_first ''+++'' encoded_origin of
           None \<Rightarrow> Inl ValueError
         | Some (scheme, netloc) \<Rightarrow>
             Inr \<lparr> d_scheme = scheme,
                   d_netloc = (if scheme = ''file''
                               then replace_char (CHR ''+'') (CHR ''/'') netloc
                               else replace_char (CHR ''+'') (CHR '':'') netloc),
                   d_ctx_id = ctx_id,
                   d_ctx_name = ctx_name \<rparr>)"

text \<open>
  The encoding as the specification words it: the host's \<^verbatim>\<open>/\<close> becomes \<^verbatim>\<open>+\<close> for the
  scheme \<^verbatim>\<open>file\<close>, its \<^verbatim>\<open>:\<close> becomes \<^verbatim>\<open>+\<close> for every other scheme, and the suffix is
  added for a container id other than 0. It is compared with \<open>site_name\<close> below.
\<close>

definition spec_encode :: "string \<Rightarrow> string \<Rightarrow> int \<Rightarrow> string" where
  "spec_encode scheme host ctx_id =
     scheme @ ''+++'' @
     (if scheme = ''file'' then replace_char (CHR ''/'') (CHR ''+'') host
      else replace_char (CHR '':'') (CHR ''+'') host) @
     (if ctx_id \<noteq> 0 then ''^userContextId='' @ str_int ctx_id else [])"

text \<open>The two substitutions of \<open>site_name\<close>, named for the statements below.\<close>

definition plus_both :: "string \<Rightarrow> string" where
  "plus_both s = replace_char (CHR ''/'') (CHR ''+'') (replace_char (CHR '':'') (CHR ''+'') s)"

section \<open>Identifier resolvers\<close>

subsection \<open>JSON values\<close>

text \<open>
  What \<^verbatim>\<open>json.load\<close> returns: \<open>JNull\<close> is Python's \<^verbatim>\<open>None\<close>, an object is a
  \<^verbatim>\<open>dict\<close> (its items in order, one per key), an array a \<^verbatim>\<open>list\<close>. Numbers are the
  integers; floating-point numbers are not modelled.
\<close>

datatype json =
    JNull
  | JBool bool
  | JInt int
  | JStr string
  | JArr "json list"
  | JObj "(string \<times> json) list"

text \<open>\<^verbatim>\<open>obj[key]\<close> for a string key: only a \<^verbatim>\<open>dict\<close> can be subscripted by a string.\<close>

fun subscript :: "json \<Rightarrow> string \<Rightarrow> py_error + json" where
  "subscript (JObj kvs) k = (case map_of kvs k of None \<Rightarrow> Inl (KeyError k) | Some v \<Rightarrow> Inr v)"
| "subscript _ k = Inl TypeError"

text \<open>\<^verbatim>\<open>for x in obj\<close>: a list gives its elements, a dict its keys, a string its characters.\<close>

fun py_iter :: "json \<Rightarrow> py_error + json list" where
  "py_iter (JArr xs) = Inr xs"
| "py_iter (JObj kvs) = Inr (map (\<lambda>kv. JStr (fst kv)) kvs)"
| "py_iter (JStr s) = Inr (map (\<lambda>c. JStr [c]) s)"
| "py_iter _ = Inl TypeError"

text \<open>\<^verbatim>\<open>int(x)\<close> for a JSON value.\<close>

fun int_of_json :: "json \<Rightarrow> py_error + int" where
  "int_of_json (JInt n) = Inr n"
| "int_of_json (JBool b) = Inr (if b then 1 else 0)"
| "int_of_json (JStr s) = (case py_int s of None \<Rightarrow> Inl ValueError | Some n \<Rightarrow> Inr n)"
| "int_of_json _ = Inl TypeError"

text \<open>\<^verbatim>\<open>c.lower()\<close> for one ASCII character.\<close>

definition lower_char :: "char \<Rightarrow> char" where
  "lower_char c =
     (case map_of (zip ''ABCDEFGHIJKLMNOPQRSTUVWXYZ'' ''abcdefghijklmnopqrstuvwxyz'') c of
        None \<Rightarrow> c
      | Some l \<Rightarrow> l)"

text \<open>\<^verbatim>\<open>s.removeprefix(p)\<close>\<close>

definition removeprefix :: "string \<Rightarrow> string \<Rightarrow> string" where
  "removeprefix s p = (if startswith s p then drop (length p) s else s)"

subsection \<open>Containers: \<^verbatim>\<open>read_user_contexts\<close>\<close>

text \<open>
  The function is a generator. Its model returns what it yields, in order, and how it
  ends: \<open>Finished\<close> after the last identity, \<open>Caught e\<close> when its \<^verbatim>\<open>except\<close> clause
  prints the diagnostic and returns, \<open>Raised e\<close> when \<open>e\<close> leaves the generator and
  reaches the caller that is iterating.
  \<^verbatim>\<open>
  def read_user_contexts(profile_dir):
      try:
          with open(profile_dir / "containers.json", "rb") as file:
              data = json.load(file)
          assert data["version"] in (4, 5)
          for identity in data["identities"]:
              name = identity.get("name")
              if name is None:
                  if data["version"] == 4:
                      name = identity["l10nID"].split(".", 1)[0]
                      if name.startswith("userContext"):
                          name = name[11].lower() + name[12:]
                  elif data["version"] == 5:
                      name = identity["l10nId"].removeprefix("user-context-")
              yield int(identity["userContextId"]), name
      except (AssertionError, FileNotFoundError, ValueError) as exc:
          print(f"Failed to parse ...", file=sys.stderr)
          return 4294967295
  \<close>
  The file is given as the result of opening and parsing it.
\<close>

datatype file_content = Missing | Malformed | Content json

datatype outcome = Finished | Caught py_error | Raised py_error

definition except_clause :: "py_error \<Rightarrow> outcome" where
  "except_clause e =
     (if e = AssertionError \<or> e = FileNotFoundError \<or> e = ValueError then Caught e else Raised e)"

text \<open>The name of one identity (the body of the loop before the \<^verbatim>\<open>yield\<close>).\<close>

definition l10n_name_v4 :: "string \<Rightarrow> py_error + json" where
  "l10n_name_v4 l10n =
     (let name = (case split_first ''.'' l10n of None \<Rightarrow> l10n | Some (a, b) \<Rightarrow> a)
      in if startswith name ''userContext''
         then (if 11 < length name then Inr (JStr (lower_char (name ! 11) # drop 12 name))
               else Inl IndexError)
         else Inr (JStr name))"

definition identity_name :: "int \<Rightarrow> json \<Rightarrow> py_error + json" where
  "identity_name version identity =
     (case identity of
        JObj kvs \<Rightarrow>
          (let name = (case map_of kvs ''name'' of None \<Rightarrow> JNull | Some v \<Rightarrow> v)
           in if name = JNull then
                (if version = 4 then
                   (case subscript identity ''l10nID'' of
                      Inl e \<Rightarrow> Inl e
                    | Inr (JStr s) \<Rightarrow> l10n_name_v4 s
                    | Inr _ \<Rightarrow> Inl AttributeError)
                 else if version = 5 then
                   (case subscript identity ''l10nId'' of
                      Inl e \<Rightarrow> Inl e
                    | Inr (JStr s) \<Rightarrow> Inr (JStr (removeprefix s ''user-context-''))
                    | Inr _ \<Rightarrow> Inl AttributeError)
                 else Inr name)
              else Inr name)
      | _ \<Rightarrow> Inl AttributeError)"

fun contexts_loop :: "int \<Rightarrow> json list \<Rightarrow> (int \<times> json) list \<times> outcome" where
  "contexts_loop version [] = ([], Finished)"
| "contexts_loop version (identity # rest) =
     (case identity_name version identity of
        Inl e \<Rightarrow> ([], except_clause e)
      | Inr name \<Rightarrow>
          (case subscript identity ''userContextId'' of
             Inl e \<Rightarrow> ([], except_clause e)
           | Inr v \<Rightarrow>
               (case int_of_json v of
                  Inl e \<Rightarrow> ([], except_clause e)
                | Inr i \<Rightarrow>
                    (case contexts_loop version rest of (ys, out) \<Rightarrow> ((i, name) # ys, out)))))"

definition read_user_contexts :: "file_content \<Rightarrow> (int \<times> json) list \<times> outcome" where
  "read_user_contexts file =
     (case file of
        Missing \<Rightarrow> ([], except_clause FileNotFoundError)
      | Malformed \<Rightarrow> ([], except_clause ValueError)
      | Content data \<Rightarrow>
          (case subscript data ''version'' of
             Inl e \<Rightarrow> ([], except_clause e)
           | Inr v \<Rightarrow>
               if v \<noteq> JInt 4 \<and> v \<noteq> JInt 5 then ([], except_clause AssertionError)
               else (case subscript data ''identities'' of
                       Inl e \<Rightarrow> ([], except_clause e)
                     | Inr ids \<Rightarrow>
                         (case py_iter ids of
                            Inl e \<Rightarrow> ([], except_clause e)
                          | Inr xs \<Rightarrow> contexts_loop (if v = JInt 4 then 4 else 5) xs))))"

text \<open>A containers.json with the given version and identities, as parsed.\<close>

definition containers_file :: "int \<Rightarrow> json list \<Rightarrow> file_content" where
  "containers_file version ids =
     Content (JObj [(''version'', JInt version), (''identities'', JArr ids)])"

subsection \<open>\<^verbatim>\<open>find_context_id_by_name\<close>\<close>

definition USER_CONTEXT_WEB_EXT :: string where
  "USER_CONTEXT_WEB_EXT = ''userContextIdInternal.webextStorageLocal''"

text \<open>
  \<^verbatim>\<open>
  def find_context_id_by_name(profile_dir, name):
      for ctx_id, ctx_name in read_user_contexts(profile_dir):
          if ctx_name == name:
              return ctx_id
      if name == USER_CONTEXT_WEB_EXT:
          return 4294967295
      else:
          raise KeyError(name)
  \<close>
  The loop consumes the generator lazily: a match returns before a later failure of
  the generator is reached, and an exception the generator raises leaves the loop.
\<close>

fun first_id_named :: "string \<Rightarrow> (int \<times> json) list \<Rightarrow> int option" where
  "first_id_named name [] = None"
| "first_id_named name ((ctx_id, ctx_name) # rest) =
     (if ctx_name = JStr name then Some ctx_id else first_id_named name rest)"

definition find_context_id_by_name :: "file_content \<Rightarrow> string \<Rightarrow> py_error + int" where
  "find_context_id_by_name file name =
     (case read_user_contexts file of
        (ys, out) \<Rightarrow>
          (case first_id_named name ys of
             Some ctx_id \<Rightarrow> Inr ctx_id
           | None \<Rightarrow>
               (case out of
                  Raised e \<Rightarrow> Inl e
                | _ \<Rightarrow> if name = USER_CONTEXT_WEB_EXT then Inr 4294967295
                       else Inl (KeyError name))))"

subsection \<open>\<^verbatim>\<open>find_uuid_by_ext_id\<close>\<close>

text \<open>
  \<^verbatim>\<open>
  def find_uuid_by_ext_id(profile_dir, ext_id):
      for name, value in read_user_prefs(profile_dir / "prefs.js"):
          if name == "extensions.webextensions.uuids":
              try:
                  value = json.loads(value)
                  return value.get(ext_id, None)
              except ValueError:
                  pass
  \<close>
  The entries are the (name, value) pairs \<^verbatim>\<open>read_user_prefs\<close> yields, each value a
  parsed JSON value. The JSON parser of the library is the parameter \<open>loads\<close>
  (\<open>None\<close> is its ValueError); \<^verbatim>\<open>json.loads\<close> of a value that is not text raises
  TypeError, and \<^verbatim>\<open>.get\<close> exists on a \<^verbatim>\<open>dict\<close> only. The result \<open>JNull\<close> is
  \<^verbatim>\<open>None\<close>, which is also what falling off the loop returns.
\<close>

fun find_uuid_by_ext_id ::
  "(string \<Rightarrow> json option) \<Rightarrow> (string \<times> json) list \<Rightarrow> string \<Rightarrow> py_error + json" where
  "find_uuid_by_ext_id loads [] ext_id = Inr JNull"
| "find_uuid_by_ext_id loads ((name, val) # rest) ext_id =
     (if name = ''extensions.webextensions.uuids'' then
        (case val of
           JStr s \<Rightarrow>
             (case loads s of
                None \<Rightarrow> find_uuid_by_ext_id loads rest ext_id
              | Some (JObj kvs) \<Rightarrow>
                  Inr (case map_of kvs ext_id of None \<Rightarrow> JNull | Some u \<Rightarrow> u)
              | Some _ \<Rightarrow> Inl AttributeError)
         | _ \<Rightarrow> Inl TypeError)
      else find_uuid_by_ext_id loads rest ext_id)"

section \<open>Structured pretty-printer\<close>

subsection \<open>Values\<close>

text \<open>
  Every Python value is an object with an identity, \<^verbatim>\<open>id(object)\<close>. The printer
  descends into four kinds of object: \<^verbatim>\<open>dict\<close>, \<^verbatim>\<open>IDBObjectWrapper\<close>, \<^verbatim>\<open>list\<close> and
  \<^verbatim>\<open>tuple\<close>. Everything else is a leaf, an \<open>atom\<close>: the \<^verbatim>\<open>NotImplemented\<close>
  singleton, a scalar (\<^verbatim>\<open>None\<close>, \<^verbatim>\<open>bool\<close>, \<^verbatim>\<open>int\<close>, \<^verbatim>\<open>str\<close>; the other types of
  \<^verbatim>\<open>_builtin_scalars\<close> are not modelled: \<^verbatim>\<open>float\<close>, and \<^verbatim>\<open>bytes\<close>, \<^verbatim>\<open>bytearray\<close> and
  \<^verbatim>\<open>complex\<close>, on which \<^verbatim>\<open>json.dumps\<close> raises TypeError), or any other object, given by the name of its
  type and its \<^verbatim>\<open>repr\<close>, which has no ordering of its own (an instance of a
  subclass of the four that overrides \<^verbatim>\<open>__repr__\<close> is such an object).

  The heap maps an identity to its object, so that a value graph can share objects and
  can contain itself. The keys of a mapping are hashable; the model takes them to be
  atoms, each with its identity.
\<close>

type_synonym addr = nat

datatype atom =
    NotImplemented
  | PyNone
  | PyBool bool
  | PyInt int
  | PyStr string
  | Opaque string string

type_synonym key = "addr \<times> atom"

definition key_id :: "key \<Rightarrow> addr" where
  "key_id k = fst k"

definition key_atom :: "key \<Rightarrow> atom" where
  "key_atom k = snd k"

datatype obj =
    Atom atom
  | PyDict "(key \<times> addr) list"
  | IDBObjectWrapper "(key \<times> addr) list"
  | PyList "addr list"
  | PyTuple "addr list"

type_synonym heap = "addr \<Rightarrow> obj"

text \<open>
  Modelled from the spec: the object store handle \<^verbatim>\<open>mozidb.IndexedDB\<close>, which is not
  among the sources. The spec requires of it "list keys", "fetch all pairs" and "count".
  The wrapper holds the pairs of the store; \<^verbatim>\<open>count_objects\<close> is their number and
  \<^verbatim>\<open>read_objects\<close> the mapping of all pairs.
\<close>

definition count_objects :: "(key \<times> addr) list \<Rightarrow> nat" where
  "count_objects store = length store"

definition read_objects :: "(key \<times> addr) list \<Rightarrow> (key \<times> addr) list" where
  "read_objects store = store"

subsection \<open>Leaves\<close>

text \<open>
  \<^verbatim>\<open>json.dumps(object, ensure_ascii=False)\<close> for a scalar: a string is quoted, with
  the quote, the backslash and the control characters escaped.
\<close>

definition hex_digit :: "nat \<Rightarrow> char" where
  "hex_digit d = ''0123456789abcdef'' ! d"

definition escape_char :: "char \<Rightarrow> string" where
  "escape_char c =
     (if c = CHR 0x22 then [CHR 0x5C, CHR 0x22]
      else if c = CHR 0x5C then [CHR 0x5C, CHR 0x5C]
      else if c = CHR 0x0A then [CHR 0x5C, CHR ''n'']
      else if c = CHR 0x0D then [CHR 0x5C, CHR ''r'']
      else if c = CHR 0x09 then [CHR 0x5C, CHR ''t'']
      else if c = CHR 0x08 then [CHR 0x5C, CHR ''b'']
      else if c = CHR 0x0C then [CHR 0x5C, CHR ''f'']
      else if (of_char c :: nat) < 32
        then [CHR 0x5C, CHR ''u'', CHR ''0'', CHR ''0'',
              hex_digit ((of_char c :: nat) div 16), hex_digit ((of_char c :: nat) mod 16)]
      else [c])"

fun json_dumps :: "atom \<Rightarrow> string" where
  "json_dumps PyNone = ''null''"
| "json_dumps (PyBool b) = (if b then ''true'' else ''false'')"
| "json_dumps (PyInt n) = str_int n"
| "json_dumps (PyStr s) = [CHR 0x22] @ concat (map escape_char s) @ [CHR 0x22]"

text \<open>
  The branches of \<^verbatim>\<open>_safe_repr\<close> that do not descend; the result is the triple
  (repr, readable, recursive):
  \<^verbatim>\<open>
  if object is NotImplemented:
      return "undefined", True, False
  typ = type(object)
  if typ in _builtin_scalars:
      return json.dumps(object, ensure_ascii=False), True, False
  ...
  rep = repr(object)
  return rep, (rep and not rep.startswith("<")), False
  \<close>
\<close>

fun atom_repr :: "atom \<Rightarrow> string \<times> bool \<times> bool" where
  "atom_repr NotImplemented = (''undefined'', True, False)"
| "atom_repr (Opaque tn rep) = (rep, rep \<noteq> [] \<and> \<not> startswith rep ''<'', False)"
| "atom_repr x = (json_dumps x, True, False)"

subsection \<open>Sorting the items of a mapping\<close>

text \<open>
  \<^verbatim>\<open>a < b\<close> on atoms; \<open>None\<close> is Python's TypeError. Numbers compare by value
  (\<^verbatim>\<open>True\<close> is 1), strings by code point; nothing else is ordered.
\<close>

fun str_lt :: "string \<Rightarrow> string \<Rightarrow> bool" where
  "str_lt [] [] = False"
| "str_lt [] (d # t) = True"
| "str_lt (c # s) [] = False"
| "str_lt (c # s) (d # t) = (if c = d then str_lt s t else (of_char c :: nat) < of_char d)"

fun num_of :: "atom \<Rightarrow> int option" where
  "num_of (PyBool b) = Some (if b then 1 else 0)"
| "num_of (PyInt n) = Some n"
| "num_of _ = None"

fun py_lt :: "atom \<Rightarrow> atom \<Rightarrow> bool option" where
  "py_lt (PyStr s) (PyStr t) = Some (str_lt s t)"
| "py_lt x y =
     (case (num_of x, num_of y) of
        (Some m, Some n) \<Rightarrow> Some (m < n)
      | _ \<Rightarrow> None)"

text \<open>The name of the type of an atom, and \<^verbatim>\<open>str(type(obj))\<close>.\<close>

fun atom_type :: "atom \<Rightarrow> string" where
  "atom_type NotImplemented = ''NotImplementedType''"
| "atom_type PyNone = ''NoneType''"
| "atom_type (PyBool b) = ''bool''"
| "atom_type (PyInt n) = ''int''"
| "atom_type (PyStr s) = ''str''"
| "atom_type (Opaque tn rep) = tn"

definition type_str :: "atom \<Rightarrow> string" where
  "type_str x = ''<class '' @ [CHR 0x27] @ atom_type x @ [CHR 0x27] @ ''>''"

text \<open>
  \<^verbatim>\<open>
  class _safe_key:
      def __lt__(self, other):
          try:
              return self.obj < other.obj
          except TypeError:
              return ((str(type(self.obj)), id(self.obj)) < \
                      (str(type(other.obj)), id(other.obj)))
  \<close>
\<close>

definition safe_key_lt :: "key \<Rightarrow> key \<Rightarrow> bool" where
  "safe_key_lt k1 k2 =
     (case py_lt (key_atom k1) (key_atom k2) of
        Some b \<Rightarrow> b
      | None \<Rightarrow>
          if type_str (key_atom k1) = type_str (key_atom k2) then key_id k1 < key_id k2
          else str_lt (type_str (key_atom k1)) (type_str (key_atom k2)))"

text \<open>
  \<^verbatim>\<open>sorted(object.items(), key=_safe_tuple)\<close>. The sort key of an item is the pair of
  the wrapped key and the wrapped value; two wrappers are never equal (the class
  defines no \<^verbatim>\<open>__eq__\<close>), so the pairs are compared by \<^verbatim>\<open>__lt__\<close> of the keys alone.
  Python's sort is stable and uses \<^verbatim>\<open><\<close> only; it is modelled as the stable
  insertion sort, which computes the same list whenever the comparison is a strict weak
  order on the keys. On keys where it is not (\<^verbatim>\<open>True\<close>, 0 and an object of a type whose
  name sorts between \<^verbatim>\<open>bool\<close> and \<^verbatim>\<open>int\<close> compare in a circle) the order Python's
  sort leaves is that of its merge procedure, which is not part of the program and is
  not modelled. The statements below do not depend on the order in that case: they
  speak of a rearrangement of the items, or compare two runs of the same sort on keys
  that compare alike.
\<close>

fun insert_item :: "key \<times> addr \<Rightarrow> (key \<times> addr) list \<Rightarrow> (key \<times> addr) list" where
  "insert_item x [] = [x]"
| "insert_item x (y # ys) =
     (if safe_key_lt (fst y) (fst x) then y # insert_item x ys else x # y # ys)"

definition py_sorted :: "(key \<times> addr) list \<Rightarrow> (key \<times> addr) list" where
  "py_sorted items = foldr insert_item items []"

subsection \<open>\<^verbatim>\<open>_safe_repr\<close>\<close>

text \<open>\<^verbatim>\<open>sep.join(components)\<close>\<close>

fun join :: "string \<Rightarrow> string list \<Rightarrow> string" where
  "join sep [] = []"
| "join sep [x] = x"
| "join sep (x # y # r) = x @ sep @ join sep (y # r)"

text \<open>
  \<^verbatim>\<open>
  def _recursion(object):
      return ("<Recursion on %s with id=%s>" % (type(object).__name__, id(object)))
  \<close>
\<close>

fun type_name :: "obj \<Rightarrow> string" where
  "type_name (PyDict items) = ''dict''"
| "type_name (IDBObjectWrapper store) = ''IDBObjectWrapper''"
| "type_name (PyList elems) = ''list''"
| "type_name (PyTuple elems) = ''tuple''"
| "type_name (Atom x) = atom_type x"

definition recursion :: "heap \<Rightarrow> addr \<Rightarrow> string" where
  "recursion h object = ''<Recursion on '' @ type_name (h object) @ '' with id='' @ str_nat object @ ''>''"

text \<open>
  \<^verbatim>\<open>maxlevels and level >= maxlevels\<close>: \<^verbatim>\<open>maxlevels\<close> is \<^verbatim>\<open>None\<close> or a number, and
  both \<^verbatim>\<open>None\<close> and 0 mean that there is no limit.
\<close>

definition depth_reached :: "int option \<Rightarrow> int \<Rightarrow> bool" where
  "depth_reached maxlevels level =
     (case maxlevels of None \<Rightarrow> False | Some m \<Rightarrow> m \<noteq> 0 \<and> m \<le> level)"

text \<open>
  The context is the dictionary of the identities being rendered. It is one mutable
  object shared by all calls, so the model passes it through: a call takes the context
  and returns it with its result.

  A call that does not return has the value \<open>None\<close>. The loops take the recursive call
  \<open>rec\<close> as a parameter:
  \<^verbatim>\<open>
  for k, v in items:
      krepr, kreadable, krecur = _safe_repr(k, context, maxlevels, level, sort_dicts)
      vrepr, vreadable, vrecur = _safe_repr(v, context, maxlevels, level, sort_dicts)
      append("%s: %s" % (krepr, vrepr))
      readable = readable and kreadable and vreadable
      if krecur or vrecur:
          recursive = True
  \<close>
  and
  \<^verbatim>\<open>
  for o in object:
      orepr, oreadable, orecur = _safe_repr(o, context, maxlevels, level, sort_dicts)
      append(orepr)
      if not oreadable:
          readable = False
      if orecur:
          recursive = True
  \<close>
  A key is an atom, so its \<^verbatim>\<open>_safe_repr\<close> is \<open>atom_repr\<close> and leaves the context as
  it is.
\<close>

type_synonym ctx = "addr set"

type_synonym 'a result = "('a \<times> bool \<times> bool) \<times> ctx"

fun format_items ::
  "(addr \<Rightarrow> ctx \<Rightarrow> string result option) \<Rightarrow> (key \<times> addr) list \<Rightarrow>
   string list \<times> bool \<times> bool \<Rightarrow> ctx \<Rightarrow> (string list) result option" where
  "format_items rec [] st context = Some (st, context)"
| "format_items rec ((k, v) # rest) (components, readable, recursive) context =
     (case atom_repr (key_atom k) of
        (krepr, kreadable, krecur) \<Rightarrow>
          (case rec v context of
             None \<Rightarrow> None
           | Some ((vrepr, vreadable, vrecur), context') \<Rightarrow>
               format_items rec rest
                 (components @ [krepr @ '': '' @ vrepr],
                  readable \<and> kreadable \<and> vreadable,
                  recursive \<or> krecur \<or> vrecur)
                 context'))"

fun format_elems ::
  "(addr \<Rightarrow> ctx \<Rightarrow> string result option) \<Rightarrow> addr list \<Rightarrow>
   string list \<times> bool \<times> bool \<Rightarrow> ctx \<Rightarrow> (string list) result option" where
  "format_elems rec [] st context = Some (st, context)"
| "format_elems rec (x # rest) (components, readable, recursive) context =
     (case rec x context of
        None \<Rightarrow> None
      | Some ((orepr, oreadable, orecur), context') \<Rightarrow>
          format_elems rec rest
            (components @ [orepr], readable \<and> oreadable, recursive \<or> orecur)
            context')"

text \<open>
  The body of \<^verbatim>\<open>_safe_repr\<close>, with \<open>rec level'\<close> for its recursive calls at the level
  \<open>level'\<close>:
  \<^verbatim>\<open>
  if issubclass(typ, (dict, IDBObjectWrapper)) and r in (dict.__repr__, IDBObjectWrapper.__repr__):
      if not object:
          return "{}", True, False
      objid = id(object)
      if maxlevels and level >= maxlevels:
          return "{...}", False, objid in context
      if objid in context:
          return _recursion(object), False, True
      context[objid] = 1
      readable = True
      recursive = False
      components = []
      level += 1
      if sort_dicts:
          items = sorted(object.items(), key=_safe_tuple)
      else:
          items = object.items()
      for k, v in items: ...
      del context[objid]
      return "{%s}" % ", ".join(components), readable, recursive

  if (issubclass(typ, list) and r is list.__repr__) or (issubclass(typ, tuple) and r is tuple.__repr__):
      if issubclass(typ, list):
          if not object:
              return "[]", True, False
          format = "[%s]"
      elif len(object) == 1:
          format = "(%s,)"
      else:
          if not object:
              return "()", True, False
          format = "(%s)"
      objid = id(object)
      if maxlevels and level >= maxlevels:
          return format % "...", False, objid in context
      if objid in context:
          return _recursion(object), False, True
      context[objid] = 1
      ...
      level += 1
      for o in object: ...
      del context[objid]
      return format % ", ".join(components), readable, recursive
  \<close>
\<close>

definition mapping_repr ::
  "(int \<Rightarrow> addr \<Rightarrow> ctx \<Rightarrow> string result option) \<Rightarrow> heap \<Rightarrow> int option \<Rightarrow> bool \<Rightarrow>
   addr \<Rightarrow> bool \<Rightarrow> (key \<times> addr) list \<Rightarrow> ctx \<Rightarrow> int \<Rightarrow> string result option" where
  "mapping_repr rec h maxlevels sort_dicts object is_empty object_items context level =
     (if is_empty then Some ((''{}'', True, False), context)
      else if depth_reached maxlevels level then Some ((''{...}'', False, object \<in> context), context)
      else if object \<in> context then Some ((recursion h object, False, True), context)
      else
        (case format_items (rec (level + 1))
                (if sort_dicts then py_sorted object_items else object_items)
                ([], True, False) (insert object context) of
           None \<Rightarrow> None
         | Some ((components, readable, recursive), context') \<Rightarrow>
             Some ((''{'' @ join '', '' components @ ''}'', readable, recursive),
                   context' - {object})))"

definition sequence_repr ::
  "(int \<Rightarrow> addr \<Rightarrow> ctx \<Rightarrow> string result option) \<Rightarrow> heap \<Rightarrow> int option \<Rightarrow>
   addr \<Rightarrow> string \<Rightarrow> string \<Rightarrow> addr list \<Rightarrow> ctx \<Rightarrow> int \<Rightarrow> string result option" where
  "sequence_repr rec h maxlevels object opening closing elems context level =
     (if depth_reached maxlevels level
      then Some ((opening @ ''...'' @ closing, False, object \<in> context), context)
      else if object \<in> context then Some ((recursion h object, False, True), context)
      else
        (case format_elems (rec (level + 1)) elems ([], True, False) (insert object context) of
           None \<Rightarrow> None
         | Some ((components, readable, recursive), context') \<Rightarrow>
             Some ((opening @ join '', '' components @ closing, readable, recursive),
                   context' - {object})))"

definition safe_repr_body ::
  "(int \<Rightarrow> addr \<Rightarrow> ctx \<Rightarrow> string result option) \<Rightarrow> heap \<Rightarrow> int option \<Rightarrow> bool \<Rightarrow>
   addr \<Rightarrow> ctx \<Rightarrow> int \<Rightarrow> string result option" where
  "safe_repr_body rec h maxlevels sort_dicts object context level =
     (case h object of
        Atom x \<Rightarrow> Some (atom_repr x, context)
      | PyDict items \<Rightarrow>
          mapping_repr rec h maxlevels sort_dicts object (items = []) items context level
      | IDBObjectWrapper store \<Rightarrow>
          mapping_repr rec h maxlevels sort_dicts object (count_objects store = 0)
            (read_objects store) context level
      | PyList elems \<Rightarrow>
          if elems = [] then Some ((''[]'', True, False), context)
          else sequence_repr rec h maxlevels object ''['' '']'' elems context level
      | PyTuple elems \<Rightarrow>
          if length elems = 1
          then sequence_repr rec h maxlevels object ''('' '',)'' elems context level
          else if elems = [] then Some ((''()'', True, False), context)
          else sequence_repr rec h maxlevels object ''('' '')'' elems context level)"

text \<open>
  \<^verbatim>\<open>_safe_repr(object, context, maxlevels, level, sort_dicts)\<close>. The first argument
  bounds the depth of the recursion: with \<open>n\<close> the calls nest at most \<open>n\<close> deep below
  this one, and a call that would go deeper has no value. That the printer returns is the
  statement that some bound gives a value.
\<close>

fun safe_repr ::
  "nat \<Rightarrow> heap \<Rightarrow> int option \<Rightarrow> bool \<Rightarrow> int \<Rightarrow> addr \<Rightarrow> ctx \<Rightarrow> string result option" where
  "safe_repr 0 h maxlevels sort_dicts level object context =
     safe_repr_body (\<lambda>l x c. None) h maxlevels sort_dicts object context level"
| "safe_repr (Suc n) h maxlevels sort_dicts level object context =
     safe_repr_body (safe_repr n h maxlevels sort_dicts) h maxlevels sort_dicts object context level"

text \<open>
  \<^verbatim>\<open>PrettyPrinter.format(object, context, maxlevels, level)\<close> is this function with the
  printer's \<^verbatim>\<open>_sort_dicts\<close>. The program constructs its printer as \<^verbatim>\<open>PrettyPrinter()\<close>:
  sorted, and without a depth limit. The library's layout of a long text over several
  lines, which asks this function for the text of every value, is not modelled.
\<close>

subsection \<open>Value graphs\<close>

text \<open>
  The objects the printer descends into, the text a value has in a given context, and
  the text of a container in terms of the texts of its children, for the statements
  below.
\<close>

fun is_container :: "obj \<Rightarrow> bool" where
  "is_container (Atom x) = False"
| "is_container x = True"

fun nonempty :: "obj \<Rightarrow> bool" where
  "nonempty (Atom x) = False"
| "nonempty (PyDict items) = (items \<noteq> [])"
| "nonempty (IDBObjectWrapper store) = (count_objects store \<noteq> 0)"
| "nonempty (PyList elems) = (elems \<noteq> [])"
| "nonempty (PyTuple elems) = (elems \<noteq> [])"

definition repr_text ::
  "nat \<Rightarrow> heap \<Rightarrow> int option \<Rightarrow> bool \<Rightarrow> int \<Rightarrow> ctx \<Rightarrow> addr \<Rightarrow> string" where
  "repr_text n h maxlevels sort_dicts level context object =
     (case safe_repr n h maxlevels sort_dicts level object context of
        None \<Rightarrow> []
      | Some ((text, readable, recursive), context') \<Rightarrow> text)"

definition item_text :: "(addr \<Rightarrow> string) \<Rightarrow> key \<times> addr \<Rightarrow> string" where
  "item_text f kv = fst (atom_repr (key_atom (fst kv))) @ '': '' @ f (snd kv)"

fun brackets :: "obj \<Rightarrow> string \<times> string" where
  "brackets (Atom x) = ([], [])"
| "brackets (PyDict items) = (''{'', ''}'')"
| "brackets (IDBObjectWrapper store) = (''{'', ''}'')"
| "brackets (PyList elems) = (''['', '']'')"
| "brackets (PyTuple elems) = (''('', if length elems = 1 then '',)'' else '')'')"

text \<open>
  A set of identities is closed when it holds the children of each of its objects: the
  objects reachable from it are in it.
\<close>

fun children :: "obj \<Rightarrow> addr list" where
  "children (Atom x) = []"
| "children (PyDict items) = map snd items"
| "children (IDBObjectWrapper store) = map snd (read_objects store)"
| "children (PyList elems) = elems"
| "children (PyTuple elems) = elems"

definition closed :: "heap \<Rightarrow> addr set \<Rightarrow> bool" where
  "closed h R = (\<forall>a \<in> R. set (children (h a)) \<subseteq> R)"

text \<open>
  The items of a mapping without the identities of its keys: two lists of items with
  the same \<open>erase_ids\<close> are the same keys (as values) with the same values, held by
  key objects of possibly other identities.
\<close>

definition erase_ids :: "(key \<times> addr) list \<Rightarrow> (atom \<times> addr) list" where
  "erase_ids items = map (\<lambda>kv. (key_atom (fst kv), snd kv)) items"

text \<open>Any two keys that Python cannot compare have types of different names.\<close>

definition names_decide :: "(key \<times> addr) list \<Rightarrow> bool" where
  "names_decide items =
     sorted_wrt (\<lambda>x y. py_lt x y = None \<longrightarrow> type_str x \<noteq> type_str y)
       (map (\<lambda>kv. key_atom (fst kv)) items)"

text \<open>The items of a mapping, of either kind.\<close>

fun mapping_items :: "obj \<Rightarrow> (key \<times> addr) list option" where
  "mapping_items (PyDict items) = Some items"
| "mapping_items (IDBObjectWrapper store) = Some (read_objects store)"
| "mapping_items x = None"

subsection \<open>Example heaps\<close>

text \<open>
  \<^verbatim>\<open>l = []; d = {"b": 3}; l.extend([l, d, d])\<close>: the list 0 holds itself and, twice,
  the dictionary 1.
\<close>

definition cyclic_heap :: heap where
  "cyclic_heap =
     (\<lambda>a. Atom PyNone)
       (0 := PyList [0, 1, 1], 1 := PyDict [((10, PyStr ''b''), 2)], 2 := Atom (PyInt 3))"

text \<open>
  \<^verbatim>\<open>d = {}; t = (d,); d["self"] = d; d["pair"] = t\<close>: the dictionary 12 holds itself
  and the tuple 13, which holds the dictionary.
\<close>

definition knot_heap :: heap where
  "knot_heap =
     (\<lambda>a. Atom PyNone)
       (12 := PyDict [((20, PyStr ''self''), 12), ((21, PyStr ''pair''), 13)],
        13 := PyTuple [12])"

text \<open>An empty dictionary, list, tuple and projection.\<close>

definition empties_heap :: heap where
  "empties_heap =
     (\<lambda>a. Atom PyNone)
       (0 := PyDict [], 1 := PyList [], 2 := PyTuple [], 3 := IDBObjectWrapper [])"

text \<open>
  A dictionary 0 and a projection 1 with the same two items, whose keys are an integer
  and a string; the value 3 is a list.
\<close>

definition store_heap :: heap where
  "store_heap =
     (\<lambda>a. Atom PyNone)
       (0 := PyDict [((10, PyStr ''k''), 2), ((11, PyInt 7), 3)],
        1 := IDBObjectWrapper [((10, PyStr ''k''), 2), ((11, PyInt 7), 3)],
        2 := Atom (PyBool True),
        3 := PyList [2])"

text \<open>
  Two dictionaries with the same two keys, objects of a class \<^verbatim>\<open>Symbol\<close> without an
  ordering, and the same value. In the dictionary 0 the key \<^verbatim>\<open>Symbol(a)\<close> has the
  smaller identity, in the dictionary 1 the key \<^verbatim>\<open>Symbol(b)\<close> has.
\<close>

definition symbols_heap :: heap where
  "symbols_heap =
     (\<lambda>a. Atom PyNone)
       (0 := PyDict [((10, Opaque ''Symbol'' ''Symbol(a)''), 2),
                     ((11, Opaque ''Symbol'' ''Symbol(b)''), 2)],
        1 := PyDict [((21, Opaque ''Symbol'' ''Symbol(a)''), 2),
                     ((20, Opaque ''Symbol'' ''Symbol(b)''), 2)],
        2 := Atom (PyInt 1))"

text \<open>
  Two dictionaries with the same keys of different types, \<^verbatim>\<open>None\<close>, an integer and a
  string, held by key objects of other identities.
\<close>

definition mixed_heap :: heap where
  "mixed_heap =
     (\<lambda>a. Atom PyNone)
       (0 := PyDict [((10, PyStr ''k''), 2), ((11, PyInt 7), 2), ((12, PyNone), 2)],
        1 := PyDict [((22, PyStr ''k''), 2), ((21, PyInt 7), 2), ((20, PyNone), 2)],
        2 := Atom (PyInt 1))"

section \<open>Properties of the codec\<close>

subsection \<open>Decimal text is read back\<close>

lemma of_char_digit_char: "d < 10 \<Longrightarrow> (of_char (digit_char d) :: nat) = 48 + d"
proof -
  assume "d < 10"
  then have "d = 0 \<or> d = 1 \<or> d = 2 \<or> d = 3 \<or> d = 4 \<or> d = 5 \<or> d = 6 \<or> d = 7 \<or> d = 8 \<or> d = 9"
    by arith
  then show ?thesis by (auto simp: digit_char_def)
qed

lemma is_digit_digit_char: "d < 10 \<Longrightarrow> is_digit (digit_char d)"
  by (simp add: is_digit_def of_char_digit_char)

lemma digit_val_digit_char: "d < 10 \<Longrightarrow> digit_val (digit_char d) = d"
  by (simp add: digit_val_def of_char_digit_char)

lemma str_nat_digits: "list_all is_digit (str_nat n)"
proof (induction n rule: str_nat.induct)
  case (1 n)
  show ?case
  proof (cases "n < 10")
    case True
    then show ?thesis by (simp add: str_nat.simps [of n] is_digit_digit_char)
  next
    case False
    with "1" show ?thesis by (simp add: str_nat.simps [of n] is_digit_digit_char)
  qed
qed

lemma str_nat_nonempty: "str_nat n \<noteq> []"
  by (simp add: str_nat.simps [of n])

lemma str_nat_value: "foldl (\<lambda>n c. 10 * n + digit_val c) 0 (str_nat n) = n"
proof (induction n rule: str_nat.induct)
  case (1 n)
  show ?case
  proof (cases "n < 10")
    case True
    then show ?thesis by (simp add: str_nat.simps [of n] digit_val_digit_char)
  next
    case False
    with "1" show ?thesis by (simp add: str_nat.simps [of n] digit_val_digit_char)
  qed
qed

lemma digits_grouped_all_digits: "s \<noteq> [] \<Longrightarrow> list_all is_digit s \<Longrightarrow> digits_grouped s"
proof (induction s rule: digits_grouped.induct)
  case 1
  then show ?case by simp
next
  case (2 c)
  then show ?case by simp
next
  case (3 c d r)
  then have "d \<noteq> CHR ''_''" by (auto simp: is_digit_def)
  with 3 show ?case by simp
qed

lemma parse_digits_str_nat: "parse_digits (str_nat n) = Some n"
proof -
  have "filter is_digit (str_nat n) = str_nat n"
    using str_nat_digits [of n] by (simp add: list_all_iff)
  then show ?thesis
    by (simp add: parse_digits_def digits_grouped_all_digits str_nat_nonempty str_nat_digits
        str_nat_value)
qed

lemma is_digit_not_space: "is_digit c \<Longrightarrow> \<not> is_space c"
  by (simp add: is_digit_def is_space_def Let_def)

lemma strip_no_space: "s \<noteq> [] \<Longrightarrow> \<not> is_space (hd s) \<Longrightarrow> \<not> is_space (last s) \<Longrightarrow> strip s = s"
proof -
  assume a: "s \<noteq> []" "\<not> is_space (hd s)" "\<not> is_space (last s)"
  then have 1: "dropWhile is_space s = s" by (cases s) simp_all
  from a have "rev s \<noteq> []" "\<not> is_space (hd (rev s))" by (simp_all add: hd_rev)
  then have "dropWhile is_space (rev s) = rev s" by (cases "rev s") simp_all
  with 1 show ?thesis by (simp add: strip_def)
qed

lemma str_nat_hd_last: "is_digit (hd (str_nat n))" "is_digit (last (str_nat n))"
  using str_nat_digits [of n] str_nat_nonempty [of n]
  by (simp_all add: list_all_iff)

lemma py_int_str_int: "py_int (str_int i) = Some i"
proof (cases "i < 0")
  case True
  let ?s = "CHR ''-'' # str_nat (nat (- i))"
  have "strip ?s = ?s"
    using str_nat_hd_last(2) [of "nat (- i)"] str_nat_nonempty [of "nat (- i)"]
    by (intro strip_no_space) (auto dest: is_digit_not_space simp: is_space_def Let_def)
  with True show ?thesis
    by (simp add: py_int_def str_int_def parse_digits_str_nat)
next
  case False
  let ?s = "str_nat (nat i)"
  have s: "strip ?s = ?s"
    using str_nat_hd_last [of "nat i"] str_nat_nonempty [of "nat i"]
    by (intro strip_no_space) (auto dest: is_digit_not_space)
  obtain c r where cr: "?s = c # r" using str_nat_nonempty [of "nat i"] by (cases ?s) auto
  then have "is_digit c" using str_nat_hd_last(1) [of "nat i"] by simp
  then have "c \<noteq> CHR ''-''" "c \<noteq> CHR ''+''" by (auto simp: is_digit_def)
  moreover have "parse_digits (c # r) = Some (nat i)" using parse_digits_str_nat [of "nat i"] cr by simp
  ultimately show ?thesis using False s cr
    by (simp add: py_int_def str_int_def)
qed

lemma split_first_absent: "sep \<noteq> [] \<Longrightarrow> hd sep \<notin> set s \<Longrightarrow> split_first sep s = None"
proof (induction s)
  case Nil
  then show ?case by simp
next
  case (Cons c r)
  then obtain x xs where sep: "sep = x # xs" by (cases sep) auto
  with Cons.prems have "x \<noteq> c" by auto
  then have "\<not> startswith (c # r) sep" by (auto simp: startswith_def sep)
  with Cons show ?case by simp
qed

lemma split_first_at:
  "sep \<noteq> [] \<Longrightarrow> hd sep \<notin> set s \<Longrightarrow> split_first sep (s @ sep @ r) = Some (s, r)"
proof (induction s)
  case Nil
  then obtain x xs where sep: "sep = x # xs" by (cases sep) auto
  show ?case by (simp add: sep startswith_def)
next
  case (Cons c s)
  then obtain x xs where sep: "sep = x # xs" by (cases sep) auto
  with Cons.prems have "x \<noteq> c" by auto
  then have "\<not> startswith (c # s @ sep @ r) sep" by (auto simp: startswith_def sep)
  with Cons show ?case by simp
qed

lemma replace_char_absent: "a \<notin> set s \<Longrightarrow> replace_char a b s = s"
  by (induction s) (auto simp: replace_char_def)

lemma replace_char_back:
  "b \<notin> set s \<Longrightarrow> replace_char b a (replace_char a b s) = s"
  by (induction s) (auto simp: replace_char_def)

lemma replace_char_append: "replace_char a b (s @ t) = replace_char a b s @ replace_char a b t"
  by (simp add: replace_char_def)

lemma set_replace_char: "set (replace_char a b s) \<subseteq> insert b (set s)"
  by (auto simp: replace_char_def)

lemma site_name_eq:
  "site_name (origin scheme host) ctx_id =
     plus_both scheme @ ''+++'' @ plus_both host @
     (if ctx_id \<noteq> 0 then ''^userContextId='' @ str_int ctx_id else [])"
  by (simp add: site_name_def origin_def plus_both_def replace_char_def)

text \<open>
  Claim C3, as amended. The name of a site's directory is the origin with every \<^verbatim>\<open>:\<close>
  and every \<^verbatim>\<open>/\<close> replaced by \<^verbatim>\<open>+\<close>, whatever the scheme, in the scheme as in the
  host: the scheme, \<^verbatim>\<open>+++\<close> (which is what \<^verbatim>\<open>://\<close> becomes) and the host. An
  extension's directory is \<^verbatim>\<open>moz-extension+++\<close> and the UUID as it is. Both get the
  suffix \<^verbatim>\<open>^userContextId=\<close> and the container id exactly when the id is not 0, which
  is the id of the absent container. The two examples of the specification hold.
\<close>

theorem site_name_origin:
  "site_name (origin scheme host) ctx_id =
     plus_both scheme @ ''+++'' @ plus_both host @
     (if ctx_id \<noteq> 0 then ''^userContextId='' @ str_int ctx_id else [])
   \<and> origin_label ext_uuid ctx_id =
     ''moz-extension+++'' @ ext_uuid @
     (if ctx_id \<noteq> 0 then ''^userContextId='' @ str_int ctx_id else [])
   \<and> site_name (origin ''https'' ''example.com'') 0 = ''https+++example.com''
   \<and> site_name (origin ''https'' ''example.com'') 7 = ''https+++example.com^userContextId=7''"
  by (simp add: site_name_eq origin_label_def plus_both_def replace_char_def str_int_def
      str_nat.simps digit_char_def)

text \<open>
  Claim C3 as stated fails where the host of a \<^verbatim>\<open>file\<close> origin has a \<^verbatim>\<open>:\<close>: the
  program replaces it as well, the encoding of the claim keeps it.
\<close>

theorem spec_encode_counterexample:
  "site_name (origin ''file'' ''/C:/Users'') 0 = ''file++++C++Users''
   \<and> spec_encode ''file'' ''/C:/Users'' 0 = ''file++++C:+Users''
   \<and> site_name (origin ''file'' ''/C:/Users'') 0 \<noteq> spec_encode ''file'' ''/C:/Users'' 0"
  by (simp add: site_name_def origin_def spec_encode_def replace_char_def)

lemma plus_both_host:
  assumes "CHR ''+'' \<notin> set host"
    and "if scheme = ''file'' then CHR '':'' \<notin> set host else CHR ''/'' \<notin> set host"
  shows "(if scheme = ''file'' then replace_char (CHR ''+'') (CHR ''/'') (plus_both host)
          else replace_char (CHR ''+'') (CHR '':'') (plus_both host)) = host"
proof (cases "scheme = ''file''")
  case True
  with assms have "replace_char (CHR '':'') (CHR ''+'') host = host"
    by (simp add: replace_char_absent)
  with True assms show ?thesis by (simp add: plus_both_def replace_char_back)
next
  case False
  with assms have "CHR ''/'' \<notin> set (replace_char (CHR '':'') (CHR ''+'') host)"
    using set_replace_char [of "CHR '':''" "CHR ''+''" host] by auto
  then have "plus_both host = replace_char (CHR '':'') (CHR ''+'') host"
    by (simp add: plus_both_def replace_char_absent)
  with False assms show ?thesis by (simp add: replace_char_back)
qed

text \<open>
  Claim C1, as amended. Decoding the directory name of an origin gives back the scheme,
  the host and the container id (the id 0 as no container), when the scheme has none of
  the characters \<^verbatim>\<open>+ : / ^\<close>, the host has neither \<^verbatim>\<open>+\<close> nor \<^verbatim>\<open>^\<close>, and the host
  has no \<^verbatim>\<open>/\<close> (no \<^verbatim>\<open>:\<close> when the scheme is \<^verbatim>\<open>file\<close>).
\<close>

theorem decode_site_name:
  assumes scheme: "set scheme \<inter> {CHR ''+'', CHR '':'', CHR ''/'', CHR ''^''} = {}"
    and host: "set host \<inter> {CHR ''+'', CHR ''^''} = {}"
    and sub: "if scheme = ''file'' then CHR '':'' \<notin> set host else CHR ''/'' \<notin> set host"
  shows "decode_dir_name (site_name (origin scheme host) ctx_id) =
           Inr \<lparr> d_scheme = scheme, d_netloc = host,
                 d_ctx_id = (if ctx_id = 0 then None else Some ctx_id),
                 d_ctx_name = (if ctx_id = 0 then [] else str_int ctx_id) \<rparr>"
proof -
  let ?enc = "scheme @ ''+++'' @ plus_both host"
  have ps: "plus_both scheme = scheme"
    using scheme by (simp add: plus_both_def replace_char_absent)
  have "set (plus_both host) \<subseteq> insert (CHR ''+'') (set host)"
    unfolding plus_both_def
    using set_replace_char [of "CHR ''/''" "CHR ''+''" "replace_char (CHR '':'') (CHR ''+'') host"]
      set_replace_char [of "CHR '':''" "CHR ''+''" host] by auto
  with scheme host have hat: "CHR ''^'' \<notin> set ?enc" by auto
  have plus: "split_first ''+++'' ?enc = Some (scheme, plus_both host)"
    using scheme by (intro split_first_at) auto
  have nl: "(if scheme = ''file'' then replace_char (CHR ''+'') (CHR ''/'') (plus_both host)
          else replace_char (CHR ''+'') (CHR '':'') (plus_both host)) = host"
    using host sub by (intro plus_both_host) auto
  show ?thesis
  proof (cases "ctx_id = 0")
    case True
    have "split_first ''^userContextId='' ?enc = None"
      using hat by (intro split_first_absent) auto
    with True plus nl show ?thesis
      by (simp add: site_name_eq ps decode_dir_name_def)
  next
    case False
    have "split_first ''^userContextId='' (?enc @ ''^userContextId='' @ str_int ctx_id) =
            Some (?enc, str_int ctx_id)"
      using hat by (intro split_first_at) auto
    with False plus nl show ?thesis
      by (simp add: site_name_eq ps decode_dir_name_def py_int_str_int)
  qed
qed

text \<open>The amended claim C1 at the origin \<^verbatim>\<open>https://example.com:8080\<close> in container 7.\<close>

theorem decode_site_name_witness:
  "decode_dir_name (site_name (origin ''https'' ''example.com:8080'') 7) =
     Inr \<lparr> d_scheme = ''https'', d_netloc = ''example.com:8080'',
           d_ctx_id = Some 7, d_ctx_name = ''7'' \<rparr>"
  using decode_site_name [of "''https''" "''example.com:8080''" 7]
  by (simp add: str_int_def str_nat.simps digit_char_def)

text \<open>
  Claim C1 as stated fails at the origin \<^verbatim>\<open>file:///C:/Users\<close>: encoding turns \<^verbatim>\<open>:\<close>
  and \<^verbatim>\<open>/\<close> into the same \<^verbatim>\<open>+\<close>, and decoding a \<^verbatim>\<open>file\<close> name turns each
  \<^verbatim>\<open>+\<close> into \<^verbatim>\<open>/\<close>.
\<close>

theorem decode_site_name_counterexample:
  "decode_dir_name (site_name (origin ''file'' ''/C:/Users'') 0) =
     Inr \<lparr> d_scheme = ''file'', d_netloc = ''/C//Users'', d_ctx_id = None, d_ctx_name = [] \<rparr>
   \<and> ''/C//Users'' \<noteq> ''/C:/Users''"
  by (simp add: site_name_def origin_def replace_char_def decode_dir_name_def startswith_def)

section \<open>Properties of the resolvers\<close>

lemma read_containers_file:
  "version = 4 \<or> version = 5 \<Longrightarrow>
     read_user_contexts (containers_file version ids) = contexts_loop version ids"
  by (auto simp: read_user_contexts_def containers_file_def)

lemma contexts_loop_append:
  "contexts_loop version pre = (ys, Finished) \<Longrightarrow>
     contexts_loop version (pre @ rest) =
       (ys @ fst (contexts_loop version rest), snd (contexts_loop version rest))"
proof (induction pre arbitrary: ys)
  case Nil
  then show ?case by simp
next
  case (Cons x pre)
  then show ?case
    by (auto split: sum.splits prod.splits simp: except_clause_def split: if_splits)
qed

lemma read_containers_object:
  "version = 4 \<or> version = 5 \<Longrightarrow> map_of kvs ''version'' = Some (JInt version) \<Longrightarrow>
   map_of kvs ''identities'' = Some (JArr ids) \<Longrightarrow>
     read_user_contexts (Content (JObj kvs)) = contexts_loop version ids"
  by (auto simp: read_user_contexts_def)

lemma except_clause_outcome:
  "except_clause e \<noteq> Finished"
  "except_clause e \<noteq> Raised AssertionError"
  "except_clause e \<noteq> Raised FileNotFoundError"
  "except_clause e \<noteq> Raised ValueError"
  by (auto simp: except_clause_def)

lemma contexts_loop_prefix:
  "contexts_loop version ids = (ys, out) \<Longrightarrow>
     length ys \<le> length ids
     \<and> contexts_loop version (take (length ys) ids) = (ys, Finished)
     \<and> ((out = Finished) = (length ys = length ids))
     \<and> (length ys < length ids \<longrightarrow> contexts_loop version [ids ! length ys] = ([], out))"
proof (induction ids arbitrary: ys)
  case Nil
  then show ?case by auto
next
  case (Cons x ids)
  show ?case
  proof (cases "contexts_loop version [x]")
    case (Pair zs o1)
    show ?thesis
    proof (cases "o1 = Finished")
      case True
      with Pair obtain i name where x: "identity_name version x = Inr name"
         "\<exists>v. subscript x ''userContextId'' = Inr v \<and> int_of_json v = Inr i"
        by (auto split: sum.splits simp: except_clause_outcome)
      then obtain ys' where ys: "ys = (i, name) # ys'" "contexts_loop version ids = (ys', out)"
        using Cons.prems by (auto split: prod.splits)
      from Cons.IH [OF ys(2)] x ys(1) show ?thesis by (auto split: prod.splits)
    next
      case False
      with Pair Cons.prems have "ys = [] \<and> out = o1 \<and> zs = []"
        by (auto split: sum.splits prod.splits)
      with Pair False show ?thesis by simp
    qed
  qed
qed

lemma contexts_loop_outcome:
  "contexts_loop version ids = (ys, out) \<Longrightarrow>
     out \<noteq> Raised AssertionError \<and> out \<noteq> Raised FileNotFoundError \<and> out \<noteq> Raised ValueError"
proof (induction ids arbitrary: ys)
  case Nil
  then show ?case by auto
next
  case (Cons x ids)
  then show ?case
    by (auto split: sum.splits prod.splits simp: except_clause_outcome)
qed

lemma read_user_contexts_outcome:
  "read_user_contexts file = (ys, out) \<Longrightarrow>
     out \<noteq> Raised AssertionError \<and> out \<noteq> Raised FileNotFoundError \<and> out \<noteq> Raised ValueError"
  unfolding read_user_contexts_def
  by (auto split: file_content.splits sum.splits if_splits simp: except_clause_outcome
      dest: contexts_loop_outcome)

text \<open>
  Claim C5, as amended.
  \<^item> The reader yields nothing and ends with a diagnostic, without raising, when the
    file is missing, when it is not JSON, and when it is an object whose version is
    neither 4 nor 5.
  \<^item> In an object of version 4 or 5 with a list of identities: when the identities
    before some identity are read without failure, and that identity has a name that
    resolves and a \<^verbatim>\<open>userContextId\<close> that is text \<^verbatim>\<open>int\<close> rejects, the reader ends with
    a diagnostic, without raising, after yielding the containers of the identities
    before it.
  \<^item> In every such object the containers yielded are those of the identities before
    the first one that fails, in order and none skipped: reading the file cut before
    that identity yields the same and finishes, and that identity alone fails in the
    same way. The sequence is complete exactly when the reader finishes; it is empty
    only when the first identity fails or there is none.
  \<^item> For every file, no AssertionError, FileNotFoundError or ValueError leaves the
    function.
\<close>

theorem read_user_contexts_caught:
  "read_user_contexts Missing = ([], Caught FileNotFoundError)
   \<and> read_user_contexts Malformed = ([], Caught ValueError)
   \<and> (map_of kvs ''version'' = Some v \<and> v \<noteq> JInt 4 \<and> v \<noteq> JInt 5 \<longrightarrow>
        read_user_contexts (Content (JObj kvs)) = ([], Caught AssertionError))
   \<and> ((version = 4 \<or> version = 5)
        \<and> map_of kvs ''version'' = Some (JInt version)
        \<and> map_of kvs ''identities'' = Some (JArr (pre @ bad # post))
        \<and> read_user_contexts (containers_file version pre) = (ys, Finished)
        \<and> identity_name version bad = Inr name
        \<and> subscript bad ''userContextId'' = Inr (JStr s) \<and> py_int s = None \<longrightarrow>
        read_user_contexts (Content (JObj kvs)) = (ys, Caught ValueError))
   \<and> ((version = 4 \<or> version = 5)
        \<and> map_of kvs ''version'' = Some (JInt version)
        \<and> map_of kvs ''identities'' = Some (JArr ids)
        \<and> read_user_contexts (Content (JObj kvs)) = (zs, out) \<longrightarrow>
        length zs \<le> length ids
        \<and> read_user_contexts (containers_file version (take (length zs) ids)) = (zs, Finished)
        \<and> (out = Finished) = (length zs = length ids)
        \<and> (length zs < length ids \<longrightarrow>
             read_user_contexts (containers_file version [ids ! length zs]) = ([], out)))
   \<and> (read_user_contexts input = (zs, out) \<longrightarrow>
        out \<noteq> Raised AssertionError \<and> out \<noteq> Raised FileNotFoundError
        \<and> out \<noteq> Raised ValueError)"
proof (intro conjI)
  show "read_user_contexts Missing = ([], Caught FileNotFoundError)"
    by (simp add: read_user_contexts_def except_clause_def)
  show "read_user_contexts Malformed = ([], Caught ValueError)"
    by (simp add: read_user_contexts_def except_clause_def)
  show "map_of kvs ''version'' = Some v \<and> v \<noteq> JInt 4 \<and> v \<noteq> JInt 5 \<longrightarrow>
        read_user_contexts (Content (JObj kvs)) = ([], Caught AssertionError)"
    by (simp add: read_user_contexts_def except_clause_def)
  show "(version = 4 \<or> version = 5)
        \<and> map_of kvs ''version'' = Some (JInt version)
        \<and> map_of kvs ''identities'' = Some (JArr (pre @ bad # post))
        \<and> read_user_contexts (containers_file version pre) = (ys, Finished)
        \<and> identity_name version bad = Inr name
        \<and> subscript bad ''userContextId'' = Inr (JStr s) \<and> py_int s = None \<longrightarrow>
        read_user_contexts (Content (JObj kvs)) = (ys, Caught ValueError)"
  proof
    assume a: "(version = 4 \<or> version = 5)
        \<and> map_of kvs ''version'' = Some (JInt version)
        \<and> map_of kvs ''identities'' = Some (JArr (pre @ bad # post))
        \<and> read_user_contexts (containers_file version pre) = (ys, Finished)
        \<and> identity_name version bad = Inr name
        \<and> subscript bad ''userContextId'' = Inr (JStr s) \<and> py_int s = None"
    then have v: "version = 4 \<or> version = 5" by (rule conjunct1)
    from a have k: "map_of kvs ''version'' = Some (JInt version)"
      "map_of kvs ''identities'' = Some (JArr (pre @ bad # post))" by simp_all
    from a have "read_user_contexts (containers_file version pre) = (ys, Finished)" by simp
    with v have pre: "contexts_loop version pre = (ys, Finished)"
      by (simp add: read_containers_file)
    from a have "contexts_loop version (bad # post) = ([], Caught ValueError)"
      by (simp add: except_clause_def)
    with contexts_loop_append [OF pre, of "bad # post"]
    have "contexts_loop version (pre @ bad # post) = (ys, Caught ValueError)" by simp
    with read_containers_object [OF v k]
    show "read_user_contexts (Content (JObj kvs)) = (ys, Caught ValueError)" by simp
  qed
  show "(version = 4 \<or> version = 5)
        \<and> map_of kvs ''version'' = Some (JInt version)
        \<and> map_of kvs ''identities'' = Some (JArr ids)
        \<and> read_user_contexts (Content (JObj kvs)) = (zs, out) \<longrightarrow>
        length zs \<le> length ids
        \<and> read_user_contexts (containers_file version (take (length zs) ids)) = (zs, Finished)
        \<and> (out = Finished) = (length zs = length ids)
        \<and> (length zs < length ids \<longrightarrow>
             read_user_contexts (containers_file version [ids ! length zs]) = ([], out))"
  proof
    assume a: "(version = 4 \<or> version = 5)
        \<and> map_of kvs ''version'' = Some (JInt version)
        \<and> map_of kvs ''identities'' = Some (JArr ids)
        \<and> read_user_contexts (Content (JObj kvs)) = (zs, out)"
    then have v: "version = 4 \<or> version = 5" by (rule conjunct1)
    from a have k: "map_of kvs ''version'' = Some (JInt version)"
      "map_of kvs ''identities'' = Some (JArr ids)" by simp_all
    from a have "read_user_contexts (Content (JObj kvs)) = (zs, out)" by simp
    with read_containers_object [OF v k] have "contexts_loop version ids = (zs, out)" by simp
    from contexts_loop_prefix [OF this] v
    show "length zs \<le> length ids
        \<and> read_user_contexts (containers_file version (take (length zs) ids)) = (zs, Finished)
        \<and> (out = Finished) = (length zs = length ids)
        \<and> (length zs < length ids \<longrightarrow>
             read_user_contexts (containers_file version [ids ! length zs]) = ([], out))"
      by (simp add: read_containers_file)
  qed
  show "read_user_contexts input = (zs, out) \<longrightarrow>
        out \<noteq> Raised AssertionError \<and> out \<noteq> Raised FileNotFoundError
        \<and> out \<noteq> Raised ValueError"
    using read_user_contexts_outcome by blast
qed

lemma one_container:
  "read_user_contexts (containers_file 5
     [JObj [(''userContextId'', JStr ''2''), (''l10nId'', JStr ''user-context-personal'')]]) =
   ([(2, JStr ''personal'')], Finished)"
  by code_simp

text \<open>
  The amended claim C5 at a file of version 3, at a file with a further key whose second
  of three identities has the id \<^verbatim>\<open>x\<close>, and at a file whose identity lacks its
  \<^verbatim>\<open>l10nID\<close>.
\<close>

theorem read_user_contexts_caught_witness:
  "read_user_contexts (Content (JObj [(''version'', JInt 3), (''identities'', JArr [])])) =
     ([], Caught AssertionError)
   \<and> read_user_contexts (Content (JObj
       [(''version'', JInt 5), (''lastUserContextId'', JInt 3),
        (''identities'', JArr
        ([JObj [(''userContextId'', JStr ''2''), (''l10nId'', JStr ''user-context-personal'')]] @
         JObj [(''userContextId'', JStr ''x''), (''name'', JStr ''b'')] #
         [JObj [(''userContextId'', JInt 3), (''name'', JStr ''c'')]]))])) =
     ([(2, JStr ''personal'')], Caught ValueError)
   \<and> read_user_contexts (containers_file 5 (take (length [(2::int, JStr ''personal'')])
        ([JObj [(''userContextId'', JStr ''2''), (''l10nId'', JStr ''user-context-personal'')]] @
         JObj [(''userContextId'', JStr ''x''), (''name'', JStr ''b'')] #
         [JObj [(''userContextId'', JInt 3), (''name'', JStr ''c'')]]))) =
     ([(2, JStr ''personal'')], Finished)
   \<and> read_user_contexts (containers_file 5
        [([JObj [(''userContextId'', JStr ''2''), (''l10nId'', JStr ''user-context-personal'')]] @
         JObj [(''userContextId'', JStr ''x''), (''name'', JStr ''b'')] #
         [JObj [(''userContextId'', JInt 3), (''name'', JStr ''c'')]]) ! length [(2::int, JStr ''personal'')]]) =
     ([], Caught ValueError)
   \<and> snd (read_user_contexts (containers_file 4 [JObj [(''userContextId'', JInt 1)]])) \<noteq>
       Raised ValueError"
proof -
  let ?ids = "([JObj [(''userContextId'', JStr ''2''), (''l10nId'', JStr ''user-context-personal'')]] @
         JObj [(''userContextId'', JStr ''x''), (''name'', JStr ''b'')] #
         [JObj [(''userContextId'', JInt 3), (''name'', JStr ''c'')]])"
  let ?kvs = "[(''version'', JInt 5), (''lastUserContextId'', JInt 3), (''identities'', JArr ?ids)]"
  have s: "py_int ''x'' = None" by code_simp
  have n: "identity_name 5 (JObj [(''userContextId'', JStr ''x''), (''name'', JStr ''b'')]) = Inr (JStr ''b'')"
    by code_simp
  have 1: "read_user_contexts (Content (JObj [(''version'', JInt 3), (''identities'', JArr [])])) =
     ([], Caught AssertionError)"
    using read_user_contexts_caught
      [where kvs = "[(''version'', JInt 3), (''identities'', JArr [])]" and v = "JInt 3"]
    by simp
  have 2: "read_user_contexts (Content (JObj ?kvs)) = ([(2, JStr ''personal'')], Caught ValueError)"
    using read_user_contexts_caught
      [where kvs = ?kvs and version = 5 and pre = "[JObj [(''userContextId'', JStr ''2''), (''l10nId'', JStr ''user-context-personal'')]]"
         and bad = "JObj [(''userContextId'', JStr ''x''), (''name'', JStr ''b'')]" and post = "[JObj [(''userContextId'', JInt 3), (''name'', JStr ''c'')]]"
         and ys = "[(2, JStr ''personal'')]" and name = "JStr ''b''" and s = "''x''"]
      one_container s n
    by simp
  have 3: "read_user_contexts (containers_file 5 (take (length [(2::int, JStr ''personal'')]) ?ids)) =
       ([(2, JStr ''personal'')], Finished)
     \<and> read_user_contexts (containers_file 5 [?ids ! length [(2::int, JStr ''personal'')]]) =
       ([], Caught ValueError)"
    using read_user_contexts_caught
      [where kvs = ?kvs and version = 5 and ids = ?ids and zs = "[(2, JStr ''personal'')]"
         and out = "Caught ValueError"] 2
    by simp
  have r: "read_user_contexts (containers_file 4 [JObj [(''userContextId'', JInt 1)]]) =
      ([], Raised (KeyError ''l10nID''))"
    by code_simp
  have 4: "snd (read_user_contexts (containers_file 4 [JObj [(''userContextId'', JInt 1)]])) \<noteq>
       Raised ValueError"
    using read_user_contexts_caught
      [where input = "containers_file 4 [JObj [(''userContextId'', JInt 1)]]" and zs = "[]"
         and out = "Raised (KeyError ''l10nID'')"] r
    by simp
  from 1 2 3 4 show ?thesis by simp
qed

text \<open>
  Claim C5 as stated fails twice. A failure at the second identity leaves the first
  container yielded, not the empty sequence; and an identity with neither a name nor
  an \<^verbatim>\<open>l10nID\<close> is not skipped: its KeyError is not among the exceptions the function
  catches, and reaches the caller.
\<close>

theorem read_user_contexts_counterexample:
  "read_user_contexts (containers_file 5
     [JObj [(''userContextId'', JStr ''2''), (''name'', JStr ''a'')],
      JObj [(''userContextId'', JStr ''x''), (''name'', JStr ''b'')]]) =
     ([(2, JStr ''a'')], Caught ValueError)
   \<and> read_user_contexts (containers_file 4 [JObj [(''userContextId'', JInt 1)]]) =
     ([], Raised (KeyError ''l10nID''))"
  by code_simp

text \<open>
  Claim C7. Under version 4 the identity whose \<^verbatim>\<open>l10nID\<close> is \<^verbatim>\<open>userContext.label\<close>
  has the segment \<^verbatim>\<open>userContext\<close>: the prefix is present and nothing follows it. The
  claim gives it the empty name; the program indexes the character after the prefix,
  \<^verbatim>\<open>name[11]\<close>, and raises IndexError, which the function does not catch.
\<close>

theorem l10n_bare_prefix_raises:
  "read_user_contexts (containers_file 4
     [JObj [(''userContextId'', JInt 1), (''l10nID'', JStr ''userContext.label'')]]) =
   ([], Raised IndexError)"
  by code_simp

text \<open>
  On every other identity the derivation is the one of claim C7: the two examples of the
  specification, and the general statements for versions 4 and 5.
\<close>

lemma identity_name_examples:
  "identity_name 4 (JObj [(''userContextId'', JInt 1), (''l10nID'', JStr ''userContextPersonal.label'')]) =
     Inr (JStr ''personal'')"
  "identity_name 5 (JObj [(''userContextId'', JInt 1), (''l10nId'', JStr ''user-context-personal'')]) =
     Inr (JStr ''personal'')"
  by code_simp+

lemma startswith_longer: "startswith s p \<Longrightarrow> s \<noteq> p \<Longrightarrow> length p < length s"
proof -
  assume a: "startswith s p" "s \<noteq> p"
  then have t: "take (length p) s = p" by (simp add: startswith_def)
  then have "length p = min (length s) (length p)" by (metis length_take)
  then have le: "length p \<le> length s" by simp
  have "length s \<noteq> length p" using t a(2) by auto
  with le show ?thesis by simp
qed

lemma identity_name_v4:
  assumes "map_of kvs ''name'' = None \<or> map_of kvs ''name'' = Some JNull"
    and "map_of kvs ''l10nID'' = Some (JStr l10n)"
    and "seg = (case split_first ''.'' l10n of None \<Rightarrow> l10n | Some (a, b) \<Rightarrow> a)"
    and "seg \<noteq> ''userContext''"
  shows "identity_name 4 (JObj kvs) =
           Inr (JStr (if startswith seg ''userContext''
                      then lower_char (seg ! 11) # drop 12 seg else seg))"
proof -
  have "startswith seg ''userContext'' \<Longrightarrow> 11 < length seg"
    using startswith_longer [of seg "''userContext''"] assms(4) by simp
  with assms(1,2,3) show ?thesis
    by (auto simp: identity_name_def l10n_name_v4_def Let_def)
qed

lemma identity_name_v5:
  assumes "map_of kvs ''name'' = None \<or> map_of kvs ''name'' = Some JNull"
    and "map_of kvs ''l10nId'' = Some (JStr l10n)"
  shows "identity_name 5 (JObj kvs) = Inr (JStr (removeprefix l10n ''user-context-''))"
  using assms by (auto simp: identity_name_def)

lemma first_id_named_Some:
  "first_id_named name ys = Some i \<Longrightarrow> (i, JStr name) \<in> set ys"
  by (induction ys) (auto split: if_splits)

lemma first_id_named_None:
  "(first_id_named name ys = None) = (JStr name \<notin> snd ` set ys)"
  by (induction ys) (auto split: if_splits)

lemma first_id_named_split:
  "JStr name \<in> snd ` set ys \<Longrightarrow>
     \<exists>pre i post. ys = pre @ (i, JStr name) # post \<and> JStr name \<notin> snd ` set pre
       \<and> first_id_named name ys = Some i"
proof (induction ys)
  case Nil
  then show ?case by simp
next
  case (Cons y ys)
  obtain j n where y: "y = (j, n)" by (cases y)
  show ?case
  proof (cases "n = JStr name")
    case True
    then have "y # ys = [] @ (j, JStr name) # ys \<and> JStr name \<notin> snd ` set []
        \<and> first_id_named name (y # ys) = Some j"
      by (simp add: y)
    then show ?thesis by blast
  next
    case False
    with Cons.prems have "JStr name \<in> snd ` set ys" by (auto simp: y)
    then obtain pre i post where "ys = pre @ (i, JStr name) # post"
      "JStr name \<notin> snd ` set pre" "first_id_named name ys = Some i"
      using Cons.IH by blast
    with False have "y # ys = (y # pre) @ (i, JStr name) # post
        \<and> JStr name \<notin> snd ` set (y # pre) \<and> first_id_named name (y # ys) = Some i"
      by (auto simp: y)
    then show ?thesis by blast
  qed
qed

text \<open>
  With \<open>ys\<close> the containers the reader yields: when a container is named \<open>name\<close>, the
  result is the id of the first such container; when none is and the reader has ended
  without raising, the result is 4294967295 for the reserved name and the error
  \<open>KeyError name\<close> for every other name.
\<close>

lemma find_context_id_by_name_cases:
  assumes "read_user_contexts file = (ys, out)"
  shows "(JStr name \<in> snd ` set ys \<longrightarrow>
            (\<exists>pre i post. ys = pre @ (i, JStr name) # post \<and> JStr name \<notin> snd ` set pre
               \<and> find_context_id_by_name file name = Inr i))
       \<and> (JStr name \<notin> snd ` set ys \<and> (\<forall>e. out \<noteq> Raised e) \<and> name = USER_CONTEXT_WEB_EXT \<longrightarrow>
            find_context_id_by_name file name = Inr 4294967295)
       \<and> (JStr name \<notin> snd ` set ys \<and> (\<forall>e. out \<noteq> Raised e) \<and> name \<noteq> USER_CONTEXT_WEB_EXT \<longrightarrow>
            find_context_id_by_name file name = Inl (KeyError name))"
proof (intro conjI impI)
  assume "JStr name \<in> snd ` set ys"
  then obtain pre i post where s: "ys = pre @ (i, JStr name) # post"
    "JStr name \<notin> snd ` set pre" and i: "first_id_named name ys = Some i"
    using first_id_named_split by blast
  have "find_context_id_by_name file name = Inr i"
    using assms i by (simp add: find_context_id_by_name_def)
  with s show "\<exists>pre i post. ys = pre @ (i, JStr name) # post \<and> JStr name \<notin> snd ` set pre
      \<and> find_context_id_by_name file name = Inr i"
    by blast
next
  assume a: "JStr name \<notin> snd ` set ys \<and> (\<forall>e. out \<noteq> Raised e) \<and> name = USER_CONTEXT_WEB_EXT"
  then have "JStr name \<notin> snd ` set ys" by (rule conjunct1)
  then have "first_id_named name ys = None" by (simp add: first_id_named_None)
  with a assms show "find_context_id_by_name file name = Inr 4294967295"
    by (cases out) (simp_all add: find_context_id_by_name_def)
next
  assume a: "JStr name \<notin> snd ` set ys \<and> (\<forall>e. out \<noteq> Raised e) \<and> name \<noteq> USER_CONTEXT_WEB_EXT"
  then have "JStr name \<notin> snd ` set ys" by (rule conjunct1)
  then have "first_id_named name ys = None" by (simp add: first_id_named_None)
  with a assms show "find_context_id_by_name file name = Inl (KeyError name)"
    by (cases out) (simp_all add: find_context_id_by_name_def)
qed

lemma find_context_id_by_name_examples:
  "find_context_id_by_name (containers_file 5
      [JObj [(''userContextId'', JInt 1), (''name'', JStr ''work'')],
       JObj [(''userContextId'', JInt 2), (''l10nId'', JStr ''user-context-personal'')]])
      ''personal'' = Inr 2
   \<and> find_context_id_by_name Missing ''userContextIdInternal.webextStorageLocal'' = Inr 4294967295
   \<and> find_context_id_by_name Missing ''work'' = Inl (KeyError ''work'')"
  by code_simp

text \<open>
  Claim C8. The claim holds wherever the reader ends without raising (lemma
  \<open>find_context_id_by_name_cases\<close>), but not for every containers file. The loop of
  \<^verbatim>\<open>find_context_id_by_name\<close> iterates the generator, and the generator catches
  AssertionError, FileNotFoundError and ValueError only. Under version 4 an identity
  with neither a \<^verbatim>\<open>name\<close> nor an \<^verbatim>\<open>l10nID\<close> raises \<^verbatim>\<open>KeyError('l10nID')\<close>, which
  leaves the generator and the loop:
  \<^item> no container matches the reserved name, and the result is that error, not
    4294967295;
  \<^item> a container named \<^verbatim>\<open>work\<close> that follows the identity is never reached, and its
    id is not returned;
  \<^item> on the file of claim C7 no container matches \<^verbatim>\<open>work\<close>, and the error is
    IndexError, not \<^verbatim>\<open>KeyError('work')\<close>.
\<close>

theorem find_context_id_by_name_uncaught:
  "find_context_id_by_name (containers_file 4 [JObj [(''userContextId'', JInt 1)]])
      ''userContextIdInternal.webextStorageLocal'' = Inl (KeyError ''l10nID'')
   \<and> find_context_id_by_name (containers_file 4
        [JObj [(''userContextId'', JInt 1)],
         JObj [(''userContextId'', JInt 2), (''name'', JStr ''work'')]])
      ''work'' = Inl (KeyError ''l10nID'')
   \<and> find_context_id_by_name (containers_file 4
        [JObj [(''userContextId'', JInt 1), (''l10nID'', JStr ''userContext.label'')]])
      ''work'' = Inl IndexError"
  by code_simp

text \<open>
  Claim C10. The result is decided by the first entry named
  \<^verbatim>\<open>extensions.webextensions.uuids\<close> whose text parses (to a JSON object \<open>kvs\<close>): it
  is the value of the extension id in \<open>kvs\<close>, or \<^verbatim>\<open>None\<close> when \<open>kvs\<close> lacks the id.
  The entries \<open>post\<close> after it are arbitrary and are not consulted; the entries of that
  name before it, whose text does not parse, are skipped.
\<close>

theorem find_uuid_by_ext_id_first_parsable:
  assumes "\<forall>(n, v) \<in> set pre. n = ''extensions.webextensions.uuids'' \<longrightarrow>
             (\<exists>t. v = JStr t \<and> loads t = None)"
    and "loads s = Some (JObj kvs)"
  shows "find_uuid_by_ext_id loads (pre @ (''extensions.webextensions.uuids'', JStr s) # post) ext_id =
           Inr (case map_of kvs ext_id of None \<Rightarrow> JNull | Some u \<Rightarrow> u)"
  using assms
proof (induction pre)
  case Nil
  then show ?case by simp
next
  case (Cons e pre)
  obtain n v where e: "e = (n, v)" by (cases e)
  show ?case
  proof (cases "n = ''extensions.webextensions.uuids''")
    case True
    with Cons.prems(1) e obtain t where "v = JStr t" "loads t = None" by auto
    with Cons e True show ?thesis by simp
  next
    case False
    with Cons e show ?thesis by simp
  qed
qed

text \<open>
  Claim C10 at a preferences file with an entry that does not parse, the entry of the
  specification's example, and a later entry that lacks the id.
\<close>

theorem find_uuid_by_ext_id_first_parsable_witness:
  "find_uuid_by_ext_id
     (\<lambda>t. if t = ''{\"ext@example.com\":\"1111\"}'' then Some (JObj [(''ext@example.com'', JStr ''1111'')])
          else if t = ''{}'' then Some (JObj []) else None)
     ([(''browser.startup.page'', JInt 3),
       (''extensions.webextensions.uuids'', JStr ''{oops'')] @
      (''extensions.webextensions.uuids'', JStr ''{\"ext@example.com\":\"1111\"}'') #
      [(''extensions.webextensions.uuids'', JStr ''{}'')])
     ''ext@example.com'' = Inr (JStr ''1111'')"
  using find_uuid_by_ext_id_first_parsable
    [of "[(''browser.startup.page'', JInt 3), (''extensions.webextensions.uuids'', JStr ''{oops'')]"
        "\<lambda>t. if t = ''{\"ext@example.com\":\"1111\"}'' then Some (JObj [(''ext@example.com'', JStr ''1111'')])
          else if t = ''{}'' then Some (JObj []) else None"
        "''{\"ext@example.com\":\"1111\"}''" "[(''ext@example.com'', JStr ''1111'')]"
        "[(''extensions.webextensions.uuids'', JStr ''{}'')]" "''ext@example.com''"]
  by simp

section \<open>Properties of the printer\<close>

subsection \<open>The context is restored\<close>

lemma format_elems_ctx:
  assumes "\<And>x c r c'. rec x c = Some (r, c') \<Longrightarrow> c' = c"
  shows "format_elems rec xs st c = Some (r, c') \<Longrightarrow> c' = c"
proof (induction xs arbitrary: st c)
  case Nil
  then show ?case by simp
next
  case (Cons x xs)
  obtain comps rd rc where st: "st = (comps, rd, rc)" by (cases st)
  from Cons.prems obtain t c1 where 1: "rec x c = Some (t, c1)"
    by (auto simp: st split: option.splits)
  then have "c1 = c" by (rule assms)
  with Cons 1 show ?case by (auto simp: st split: prod.splits)
qed

lemma format_items_ctx:
  assumes "\<And>x c r c'. rec x c = Some (r, c') \<Longrightarrow> c' = c"
  shows "format_items rec xs st c = Some (r, c') \<Longrightarrow> c' = c"
proof (induction xs arbitrary: st c)
  case Nil
  then show ?case by simp
next
  case (Cons kv xs)
  obtain k v where kv: "kv = (k, v)" by (cases kv)
  obtain comps rd rc where st: "st = (comps, rd, rc)" by (cases st)
  from Cons.prems obtain t c1 where 1: "rec v c = Some (t, c1)"
    by (auto simp: st kv split: option.splits prod.splits)
  then have "c1 = c" by (rule assms)
  with Cons 1 show ?case by (auto simp: st kv split: prod.splits)
qed

lemma mapping_repr_ctx:
  assumes "\<And>l x c r c'. rec l x c = Some (r, c') \<Longrightarrow> c' = c"
    and "mapping_repr rec h ml sd a e its c level = Some (r, c')"
  shows "c' = c"
proof (cases "e \<or> depth_reached ml level \<or> a \<in> c")
  case True
  with assms(2) show ?thesis by (auto simp: mapping_repr_def split: if_splits)
next
  case False
  with assms(2) obtain r1 c1 where
    1: "format_items (rec (level + 1)) (if sd then py_sorted its else its) ([], True, False) (insert a c) = Some (r1, c1)"
    and 2: "c' = c1 - {a}"
    by (auto simp: mapping_repr_def split: option.splits)
  from 1 have "c1 = insert a c" by (rule format_items_ctx [rotated]) (rule assms(1))
  with 2 False show ?thesis by auto
qed

lemma sequence_repr_ctx:
  assumes "\<And>l x c r c'. rec l x c = Some (r, c') \<Longrightarrow> c' = c"
    and "sequence_repr rec h ml a op cl xs c level = Some (r, c')"
  shows "c' = c"
proof (cases "depth_reached ml level \<or> a \<in> c")
  case True
  with assms(2) show ?thesis by (auto simp: sequence_repr_def split: if_splits)
next
  case False
  with assms(2) obtain r1 c1 where
    1: "format_elems (rec (level + 1)) xs ([], True, False) (insert a c) = Some (r1, c1)"
    and 2: "c' = c1 - {a}"
    by (auto simp: sequence_repr_def split: option.splits)
  from 1 have "c1 = insert a c" by (rule format_elems_ctx [rotated]) (rule assms(1))
  with 2 False show ?thesis by auto
qed

lemma safe_repr_body_ctx:
  assumes rec: "\<And>l x c r c'. rec l x c = Some (r, c') \<Longrightarrow> c' = c"
    and body: "safe_repr_body rec h ml sd a c level = Some (r, c')"
  shows "c' = c"
proof (cases "h a")
  case (Atom x)
  with body show ?thesis by (simp add: safe_repr_body_def)
next
  case (PyDict its)
  with body have "mapping_repr rec h ml sd a (its = []) its c level = Some (r, c')"
    by (simp add: safe_repr_body_def)
  with rec show ?thesis by (rule mapping_repr_ctx)
next
  case (IDBObjectWrapper store)
  with body have "mapping_repr rec h ml sd a (count_objects store = 0) (read_objects store) c level
      = Some (r, c')"
    by (simp add: safe_repr_body_def)
  with rec show ?thesis by (rule mapping_repr_ctx)
next
  case (PyList xs)
  show ?thesis
  proof (cases "xs = []")
    case True
    with body PyList show ?thesis by (simp add: safe_repr_body_def)
  next
    case False
    with body PyList have "sequence_repr rec h ml a ''['' '']'' xs c level = Some (r, c')"
      by (simp add: safe_repr_body_def)
    with rec show ?thesis by (rule sequence_repr_ctx)
  qed
next
  case (PyTuple xs)
  show ?thesis
  proof (cases "xs = []")
    case True
    with body PyTuple show ?thesis by (simp add: safe_repr_body_def)
  next
    case False
    with body PyTuple have "\<exists>cl. sequence_repr rec h ml a ''('' cl xs c level = Some (r, c')"
      by (auto simp: safe_repr_body_def split: if_splits)
    then obtain cl where "sequence_repr rec h ml a ''('' cl xs c level = Some (r, c')" ..
    with rec show ?thesis by (rule sequence_repr_ctx)
  qed
qed

lemma safe_repr_ctx: "safe_repr n h ml sd level a c = Some (r, c') \<Longrightarrow> c' = c"
proof (induction n arbitrary: level a c r c')
  case 0
  have "\<And>l x c r c'. (\<lambda>l x c. None) l x c = Some (r, c') \<Longrightarrow> c' = c" by simp
  from this 0 [simplified] show ?case by (rule safe_repr_body_ctx)
next
  case (Suc n)
  from Suc.IH Suc.prems [simplified] show ?case by (rule safe_repr_body_ctx)
qed

subsection \<open>A larger bound gives the same result\<close>

lemma format_elems_mono:
  assumes "\<And>x c r. rec x c = Some r \<Longrightarrow> rec' x c = Some r"
  shows "format_elems rec xs st c = Some r \<Longrightarrow> format_elems rec' xs st c = Some r"
proof (induction xs arbitrary: st c)
  case Nil
  then show ?case by simp
next
  case (Cons x xs)
  obtain comps rd rc where st: "st = (comps, rd, rc)" by (cases st)
  from Cons.prems obtain t c1 where 1: "rec x c = Some (t, c1)"
    by (auto simp: st split: option.splits)
  then have "rec' x c = Some (t, c1)" by (rule assms)
  with Cons 1 show ?case by (auto simp: st split: prod.splits)
qed

lemma format_items_mono:
  assumes "\<And>x c r. rec x c = Some r \<Longrightarrow> rec' x c = Some r"
  shows "format_items rec xs st c = Some r \<Longrightarrow> format_items rec' xs st c = Some r"
proof (induction xs arbitrary: st c)
  case Nil
  then show ?case by simp
next
  case (Cons kv xs)
  obtain k v where kv: "kv = (k, v)" by (cases kv)
  obtain comps rd rc where st: "st = (comps, rd, rc)" by (cases st)
  from Cons.prems obtain t c1 where 1: "rec v c = Some (t, c1)"
    by (auto simp: st kv split: option.splits prod.splits)
  then have "rec' v c = Some (t, c1)" by (rule assms)
  with Cons 1 show ?case by (auto simp: st kv split: prod.splits)
qed

lemma mapping_repr_mono:
  assumes "\<And>l x c r. rec l x c = Some r \<Longrightarrow> rec' l x c = Some r"
    and "mapping_repr rec h ml sd a e its c level = Some r"
  shows "mapping_repr rec' h ml sd a e its c level = Some r"
proof (cases "e \<or> depth_reached ml level \<or> a \<in> c")
  case True
  with assms(2) show ?thesis by (auto simp: mapping_repr_def split: if_splits)
next
  case False
  with assms(2) obtain r1 where
    1: "format_items (rec (level + 1)) (if sd then py_sorted its else its) ([], True, False) (insert a c) = Some r1"
    by (auto simp: mapping_repr_def split: option.splits)
  from 1 have "format_items (rec' (level + 1)) (if sd then py_sorted its else its) ([], True, False) (insert a c) = Some r1"
    by (rule format_items_mono [rotated]) (rule assms(1))
  with 1 assms(2) False show ?thesis by (simp add: mapping_repr_def)
qed

lemma sequence_repr_mono:
  assumes "\<And>l x c r. rec l x c = Some r \<Longrightarrow> rec' l x c = Some r"
    and "sequence_repr rec h ml a op cl xs c level = Some r"
  shows "sequence_repr rec' h ml a op cl xs c level = Some r"
proof (cases "depth_reached ml level \<or> a \<in> c")
  case True
  with assms(2) show ?thesis by (auto simp: sequence_repr_def split: if_splits)
next
  case False
  with assms(2) obtain r1 where
    1: "format_elems (rec (level + 1)) xs ([], True, False) (insert a c) = Some r1"
    by (auto simp: sequence_repr_def split: option.splits)
  from 1 have "format_elems (rec' (level + 1)) xs ([], True, False) (insert a c) = Some r1"
    by (rule format_elems_mono [rotated]) (rule assms(1))
  with 1 assms(2) False show ?thesis by (simp add: sequence_repr_def)
qed

lemma safe_repr_body_mono:
  assumes rec: "\<And>l x c r. rec l x c = Some r \<Longrightarrow> rec' l x c = Some r"
    and body: "safe_repr_body rec h ml sd a c level = Some r"
  shows "safe_repr_body rec' h ml sd a c level = Some r"
proof (cases "h a")
  case (Atom x)
  with body show ?thesis by (simp add: safe_repr_body_def)
next
  case (PyDict its)
  with body have "mapping_repr rec h ml sd a (its = []) its c level = Some r"
    by (simp add: safe_repr_body_def)
  with rec have "mapping_repr rec' h ml sd a (its = []) its c level = Some r"
    by (rule mapping_repr_mono)
  with PyDict show ?thesis by (simp add: safe_repr_body_def)
next
  case (IDBObjectWrapper store)
  with body have "mapping_repr rec h ml sd a (count_objects store = 0) (read_objects store) c level
      = Some r"
    by (simp add: safe_repr_body_def)
  with rec have "mapping_repr rec' h ml sd a (count_objects store = 0) (read_objects store) c level
      = Some r"
    by (rule mapping_repr_mono)
  with IDBObjectWrapper show ?thesis by (simp add: safe_repr_body_def)
next
  case (PyList xs)
  show ?thesis
  proof (cases "xs = []")
    case True
    with body PyList show ?thesis by (simp add: safe_repr_body_def)
  next
    case False
    with body PyList have "sequence_repr rec h ml a ''['' '']'' xs c level = Some r"
      by (simp add: safe_repr_body_def)
    with rec have "sequence_repr rec' h ml a ''['' '']'' xs c level = Some r"
      by (rule sequence_repr_mono)
    with False PyList show ?thesis by (simp add: safe_repr_body_def)
  qed
next
  case (PyTuple xs)
  show ?thesis
  proof (cases "xs = []")
    case True
    with body PyTuple show ?thesis by (simp add: safe_repr_body_def)
  next
    case False
    let ?cl = "if length xs = 1 then '',)'' else '')''"
    from False body PyTuple have "sequence_repr rec h ml a ''('' ?cl xs c level = Some r"
      by (auto simp: safe_repr_body_def split: if_splits)
    with rec have "sequence_repr rec' h ml a ''('' ?cl xs c level = Some r"
      by (rule sequence_repr_mono)
    with False PyTuple show ?thesis by (auto simp: safe_repr_body_def)
  qed
qed

lemma safe_repr_Suc:
  "safe_repr n h ml sd level a c = Some r \<Longrightarrow> safe_repr (Suc n) h ml sd level a c = Some r"
proof (induction n arbitrary: level a c r)
  case 0
  have "\<And>l x c r. (\<lambda>l x c. None) l x c = Some r \<Longrightarrow> safe_repr 0 h ml sd l x c = Some r"
    by simp
  from this 0 [simplified] have "safe_repr_body (safe_repr 0 h ml sd) h ml sd a c level = Some r"
    by (rule safe_repr_body_mono)
  then show ?case by simp
next
  case (Suc n)
  from Suc.IH Suc.prems [simplified]
  have "safe_repr_body (safe_repr (Suc n) h ml sd) h ml sd a c level = Some r"
    by (rule safe_repr_body_mono)
  then show ?case by simp
qed

lemma safe_repr_mono:
  "n \<le> m \<Longrightarrow> safe_repr n h ml sd level a c = Some r \<Longrightarrow> safe_repr m h ml sd level a c = Some r"
proof (induction m)
  case 0
  then show ?case by simp
next
  case (Suc m)
  show ?case
  proof (cases "n = Suc m")
    case True
    with Suc.prems show ?thesis by simp
  next
    case False
    with Suc.prems have "n \<le> m" by simp
    with Suc have "safe_repr m h ml sd level a c = Some r" by simp
    then show ?thesis by (rule safe_repr_Suc)
  qed
qed

subsection \<open>The printer returns\<close>

lemma format_elems_total:
  assumes "\<And>x. \<exists>r. rec x c = Some (r, c)"
  shows "\<exists>r. format_elems rec xs st c = Some (r, c)"
proof (induction xs arbitrary: st)
  case Nil
  then show ?case by (cases st) simp_all
next
  case (Cons x xs)
  obtain comps rd rc where st: "st = (comps, rd, rc)" by (cases st)
  from assms obtain t where "rec x c = Some (t, c)" by blast
  with Cons show ?case by (auto simp: st split: prod.splits)
qed

lemma format_items_total:
  assumes "\<And>x. \<exists>r. rec x c = Some (r, c)"
  shows "\<exists>r. format_items rec xs st c = Some (r, c)"
proof (induction xs arbitrary: st)
  case Nil
  then show ?case by (cases st) simp_all
next
  case (Cons kv xs)
  obtain k v where kv: "kv = (k, v)" by (cases kv)
  obtain comps rd rc where st: "st = (comps, rd, rc)" by (cases st)
  from assms obtain t where "rec v c = Some (t, c)" by blast
  with Cons show ?case by (auto simp: st kv split: prod.splits)
qed

lemma mapping_repr_total:
  assumes "\<And>l x. \<not> e \<Longrightarrow> a \<notin> c \<Longrightarrow> \<exists>r. rec l x (insert a c) = Some (r, insert a c)"
  shows "\<exists>r. mapping_repr rec h ml sd a e its c level = Some (r, c)"
proof (cases "e \<or> depth_reached ml level \<or> a \<in> c")
  case True
  then show ?thesis by (auto simp: mapping_repr_def)
next
  case False
  then have "\<And>x. \<exists>r. rec (level + 1) x (insert a c) = Some (r, insert a c)"
    using assms by simp
  then obtain r1 where
    "format_items (rec (level + 1)) (if sd then py_sorted its else its) ([], True, False) (insert a c)
       = Some (r1, insert a c)"
    using format_items_total [of "rec (level + 1)" "insert a c"] by blast
  with False show ?thesis by (auto simp: mapping_repr_def split: prod.splits)
qed

lemma sequence_repr_total:
  assumes "\<And>l x. a \<notin> c \<Longrightarrow> \<exists>r. rec l x (insert a c) = Some (r, insert a c)"
  shows "\<exists>r. sequence_repr rec h ml a op cl xs c level = Some (r, c)"
proof (cases "depth_reached ml level \<or> a \<in> c")
  case True
  then show ?thesis by (auto simp: sequence_repr_def)
next
  case False
  then have "\<And>x. \<exists>r. rec (level + 1) x (insert a c) = Some (r, insert a c)"
    using assms by simp
  then obtain r1 where
    "format_elems (rec (level + 1)) xs ([], True, False) (insert a c) = Some (r1, insert a c)"
    using format_elems_total [of "rec (level + 1)" "insert a c"] by blast
  with False show ?thesis by (auto simp: sequence_repr_def split: prod.splits)
qed

lemma safe_repr_body_total:
  assumes "\<And>l x. nonempty (h a) \<Longrightarrow> a \<notin> c \<Longrightarrow> \<exists>r. rec l x (insert a c) = Some (r, insert a c)"
  shows "\<exists>r. safe_repr_body rec h ml sd a c level = Some (r, c)"
proof (cases "h a")
  case (Atom x)
  then show ?thesis by (cases "atom_repr x") (simp add: safe_repr_body_def)
next
  case (PyDict its)
  with assms have "\<And>l x. \<not> its = [] \<Longrightarrow> a \<notin> c \<Longrightarrow> \<exists>r. rec l x (insert a c) = Some (r, insert a c)"
    by simp
  then have "\<exists>r. mapping_repr rec h ml sd a (its = []) its c level = Some (r, c)"
    by (rule mapping_repr_total)
  with PyDict show ?thesis by (simp add: safe_repr_body_def)
next
  case (IDBObjectWrapper store)
  with assms have "\<And>l x. \<not> count_objects store = 0 \<Longrightarrow> a \<notin> c \<Longrightarrow>
      \<exists>r. rec l x (insert a c) = Some (r, insert a c)"
    by simp
  then have "\<exists>r. mapping_repr rec h ml sd a (count_objects store = 0) (read_objects store) c level
      = Some (r, c)"
    by (rule mapping_repr_total)
  with IDBObjectWrapper show ?thesis by (simp add: safe_repr_body_def)
next
  case (PyList xs)
  show ?thesis
  proof (cases "xs = []")
    case True
    with PyList show ?thesis by (auto simp: safe_repr_body_def)
  next
    case False
    with PyList assms have "\<And>l x. a \<notin> c \<Longrightarrow> \<exists>r. rec l x (insert a c) = Some (r, insert a c)"
      by simp
    then have "\<exists>r. sequence_repr rec h ml a ''['' '']'' xs c level = Some (r, c)"
      by (rule sequence_repr_total)
    with False PyList show ?thesis by (simp add: safe_repr_body_def)
  qed
next
  case (PyTuple xs)
  show ?thesis
  proof (cases "xs = []")
    case True
    with PyTuple show ?thesis by (auto simp: safe_repr_body_def)
  next
    case False
    let ?cl = "if length xs = 1 then '',)'' else '')''"
    from False PyTuple assms
    have "\<And>l x. a \<notin> c \<Longrightarrow> \<exists>r. rec l x (insert a c) = Some (r, insert a c)"
      by simp
    then have "\<exists>r. sequence_repr rec h ml a ''('' ?cl xs c level = Some (r, c)"
      by (rule sequence_repr_total)
    with False PyTuple show ?thesis by (auto simp: safe_repr_body_def)
  qed
qed

lemma nonempty_is_container: "nonempty x \<Longrightarrow> is_container x"
  by (cases x) simp_all

lemma safe_repr_total:
  assumes fin: "finite {a. is_container (h a)}"
  shows "card ({a. is_container (h a)} - c) \<le> n \<Longrightarrow>
           \<exists>r. safe_repr n h ml sd level a c = Some (r, c)"
proof (induction n arbitrary: c a level)
  case 0
  from fin have "finite ({a. is_container (h a)} - c)" by simp
  with 0 have sub: "{a. is_container (h a)} - c = {}" by simp
  have "\<And>l x. nonempty (h a) \<Longrightarrow> a \<notin> c \<Longrightarrow>
      \<exists>r. (\<lambda>l x c. None) l x (insert a c) = Some (r, insert a c)"
    using sub nonempty_is_container [of "h a"] by auto
  then have "\<exists>r. safe_repr_body (\<lambda>l x c. None) h ml sd a c level = Some (r, c)"
    by (rule safe_repr_body_total)
  then show ?case by simp
next
  case (Suc n)
  have "\<And>l x. nonempty (h a) \<Longrightarrow> a \<notin> c \<Longrightarrow>
      \<exists>r. safe_repr n h ml sd l x (insert a c) = Some (r, insert a c)"
  proof -
    fix l x
    assume ne: "nonempty (h a)" and a: "a \<notin> c"
    then have mem: "a \<in> {a. is_container (h a)} - c"
      using nonempty_is_container [of "h a"] by simp
    have eq: "{a. is_container (h a)} - insert a c = ({a. is_container (h a)} - c) - {a}"
      by auto
    from fin have "finite ({a. is_container (h a)} - c)" by simp
    from this mem
    have "card (({a. is_container (h a)} - c) - {a}) < card ({a. is_container (h a)} - c)"
      by (rule card_Diff1_less)
    then have "card ({a. is_container (h a)} - insert a c) < card ({a. is_container (h a)} - c)"
      by (simp only: eq)
    with Suc.prems have "card ({a. is_container (h a)} - insert a c) \<le> n" by simp
    then show "\<exists>r. safe_repr n h ml sd l x (insert a c) = Some (r, insert a c)"
      by (rule Suc.IH)
  qed
  then have "\<exists>r. safe_repr_body (safe_repr n h ml sd) h ml sd a c level = Some (r, c)"
    by (rule safe_repr_body_total)
  then show ?case by simp
qed

lemma safe_repr_marker:
  assumes "nonempty (h a)" and "\<not> depth_reached ml level" and "a \<in> c"
  shows "safe_repr n h ml sd level a c = Some ((recursion h a, False, True), c)"
proof -
  have "safe_repr_body rec h ml sd a c level = Some ((recursion h a, False, True), c)" for rec
    using assms
    by (cases "h a") (auto simp: safe_repr_body_def mapping_repr_def sequence_repr_def)
  then show ?thesis by (cases n) simp_all
qed

lemma safe_repr_empty:
  assumes "is_container (h a)" and "\<not> nonempty (h a)"
  shows "safe_repr n h ml sd level a c =
           Some ((fst (brackets (h a)) @ snd (brackets (h a)), True, False), c)"
proof -
  have "safe_repr_body rec h ml sd a c level =
          Some ((fst (brackets (h a)) @ snd (brackets (h a)), True, False), c)" for rec
    using assms
    by (cases "h a") (auto simp: safe_repr_body_def mapping_repr_def)
  then show ?thesis by (cases n) simp_all
qed

subsection \<open>The text of a container\<close>

lemma format_elems_components:
  assumes "\<And>x c r c'. rec x c = Some (r, c') \<Longrightarrow> c' = c"
  shows "format_elems rec xs (comps, rd, rc) c = Some ((comps', rd', rc'), c') \<Longrightarrow>
    comps' = comps @ map (\<lambda>x. case rec x c of None \<Rightarrow> [] | Some ((t, rd, rc), c') \<Rightarrow> t) xs"
proof (induction xs arbitrary: comps rd rc)
  case Nil
  then show ?case by simp
next
  case (Cons x xs)
  from Cons.prems obtain t ord orc c1 where 1: "rec x c = Some ((t, ord, orc), c1)"
    by (auto split: option.splits)
  then have c1: "c1 = c" by (rule assms)
  from Cons.prems 1 c1
  have "format_elems rec xs (comps @ [t], rd \<and> ord, rc \<or> orc) c = Some ((comps', rd', rc'), c')"
    by simp
  then have "comps' = (comps @ [t]) @
      map (\<lambda>x. case rec x c of None \<Rightarrow> [] | Some ((t, rd, rc), c') \<Rightarrow> t) xs"
    by (rule Cons.IH)
  with 1 show ?case by simp
qed

lemma format_items_components:
  assumes "\<And>x c r c'. rec x c = Some (r, c') \<Longrightarrow> c' = c"
  shows "format_items rec xs (comps, rd, rc) c = Some ((comps', rd', rc'), c') \<Longrightarrow>
    comps' = comps @
      map (item_text (\<lambda>x. case rec x c of None \<Rightarrow> [] | Some ((t, rd, rc), c') \<Rightarrow> t)) xs"
proof (induction xs arbitrary: comps rd rc)
  case Nil
  then show ?case by simp
next
  case (Cons kv xs)
  obtain k v where kv: "kv = (k, v)" by (cases kv)
  obtain kr krd krc where k: "atom_repr (key_atom k) = (kr, krd, krc)"
    by (cases "atom_repr (key_atom k)")
  from Cons.prems obtain t ord orc c1 where 1: "rec v c = Some ((t, ord, orc), c1)"
    by (auto simp: kv k split: option.splits)
  then have c1: "c1 = c" by (rule assms)
  from Cons.prems 1 c1
  have "format_items rec xs (comps @ [kr @ '': '' @ t], rd \<and> krd \<and> ord, rc \<or> krc \<or> orc) c
      = Some ((comps', rd', rc'), c')"
    by (simp add: kv k)
  then have "comps' = (comps @ [kr @ '': '' @ t]) @
      map (item_text (\<lambda>x. case rec x c of None \<Rightarrow> [] | Some ((t, rd, rc), c') \<Rightarrow> t)) xs"
    by (rule Cons.IH)
  with 1 show ?case by (simp add: kv k item_text_def)
qed

lemma mapping_repr_children:
  assumes rec: "\<And>l x c r c'. rec l x c = Some (r, c') \<Longrightarrow> c' = c"
    and "\<not> e" and "\<not> depth_reached ml level" and "a \<notin> c"
    and "mapping_repr rec h ml sd a e its c level = Some ((t, rd, rc), c')"
  shows "t = ''{'' @ join '', ''
           (map (item_text (\<lambda>x. case rec (level + 1) x (insert a c) of None \<Rightarrow> []
                                 | Some ((t, rd, rc), c') \<Rightarrow> t))
              (if sd then py_sorted its else its)) @ ''}''"
proof -
  from assms(2-5) obtain comps rd1 rc1 c1 where
    1: "format_items (rec (level + 1)) (if sd then py_sorted its else its) ([], True, False) (insert a c)
          = Some ((comps, rd1, rc1), c1)"
    and 2: "t = ''{'' @ join '', '' comps @ ''}''"
    by (auto simp: mapping_repr_def split: option.splits)
  from 1 have "comps = [] @ map (item_text (\<lambda>x. case rec (level + 1) x (insert a c) of None \<Rightarrow> []
                                 | Some ((t, rd, rc), c') \<Rightarrow> t))
              (if sd then py_sorted its else its)"
    by (rule format_items_components [rotated]) (rule rec)
  with 2 show ?thesis by simp
qed

lemma sequence_repr_children:
  assumes rec: "\<And>l x c r c'. rec l x c = Some (r, c') \<Longrightarrow> c' = c"
    and "\<not> depth_reached ml level" and "a \<notin> c"
    and "sequence_repr rec h ml a op cl xs c level = Some ((t, rd, rc), c')"
  shows "t = op @ join '', ''
           (map (\<lambda>x. case rec (level + 1) x (insert a c) of None \<Rightarrow> []
                     | Some ((t, rd, rc), c') \<Rightarrow> t) xs) @ cl"
proof -
  from assms(2-4) obtain comps rd1 rc1 c1 where
    1: "format_elems (rec (level + 1)) xs ([], True, False) (insert a c)
          = Some ((comps, rd1, rc1), c1)"
    and 2: "t = op @ join '', '' comps @ cl"
    by (auto simp: sequence_repr_def split: option.splits)
  from 1 have "comps = [] @ map (\<lambda>x. case rec (level + 1) x (insert a c) of None \<Rightarrow> []
                     | Some ((t, rd, rc), c') \<Rightarrow> t) xs"
    by (rule format_elems_components [rotated]) (rule rec)
  with 2 show ?thesis by simp
qed

lemma mset_insert_item: "mset (insert_item x ys) = add_mset x (mset ys)"
  by (induction ys) simp_all

lemma mset_py_sorted: "mset (py_sorted xs) = mset xs"
  by (induction xs) (simp_all add: py_sorted_def mset_insert_item)

lemma safe_repr_marker_text:
  assumes "\<not> depth_reached ml level" and "a \<in> c"
  shows "(h a = PyDict its \<and> its \<noteq> [] \<longrightarrow>
           safe_repr n h ml sd level a c =
             Some ((''<Recursion on dict with id='' @ str_nat a @ ''>'', False, True), c))
       \<and> (h a = IDBObjectWrapper store \<and> count_objects store \<noteq> 0 \<longrightarrow>
           safe_repr n h ml sd level a c =
             Some ((''<Recursion on IDBObjectWrapper with id='' @ str_nat a @ ''>'', False, True), c))
       \<and> (h a = PyList xs \<and> xs \<noteq> [] \<longrightarrow>
           safe_repr n h ml sd level a c =
             Some ((''<Recursion on list with id='' @ str_nat a @ ''>'', False, True), c))
       \<and> (h a = PyTuple xs \<and> xs \<noteq> [] \<longrightarrow>
           safe_repr n h ml sd level a c =
             Some ((''<Recursion on tuple with id='' @ str_nat a @ ''>'', False, True), c))"
proof (intro conjI impI)
  assume "h a = PyDict its \<and> its \<noteq> []"
  then have "nonempty (h a)" "type_name (h a) = ''dict''" by simp_all
  with assms safe_repr_marker [of h a ml level c n sd]
  show "safe_repr n h ml sd level a c =
      Some ((''<Recursion on dict with id='' @ str_nat a @ ''>'', False, True), c)"
    by (simp add: recursion_def)
next
  assume "h a = IDBObjectWrapper store \<and> count_objects store \<noteq> 0"
  then have "nonempty (h a)" "type_name (h a) = ''IDBObjectWrapper''" by simp_all
  with assms safe_repr_marker [of h a ml level c n sd]
  show "safe_repr n h ml sd level a c =
      Some ((''<Recursion on IDBObjectWrapper with id='' @ str_nat a @ ''>'', False, True), c)"
    by (simp add: recursion_def)
next
  assume "h a = PyList xs \<and> xs \<noteq> []"
  then have "nonempty (h a)" "type_name (h a) = ''list''" by simp_all
  with assms safe_repr_marker [of h a ml level c n sd]
  show "safe_repr n h ml sd level a c =
      Some ((''<Recursion on list with id='' @ str_nat a @ ''>'', False, True), c)"
    by (simp add: recursion_def)
next
  assume "h a = PyTuple xs \<and> xs \<noteq> []"
  then have "nonempty (h a)" "type_name (h a) = ''tuple''" by simp_all
  with assms safe_repr_marker [of h a ml level c n sd]
  show "safe_repr n h ml sd level a c =
      Some ((''<Recursion on tuple with id='' @ str_nat a @ ''>'', False, True), c)"
    by (simp add: recursion_def)
qed

lemma safe_repr_list_text:
  assumes d: "\<not> depth_reached ml level" and a: "a \<notin> c"
    and r: "safe_repr (Suc n) h ml sd level a c = Some ((t, rd, rc), c')"
    and l: "h a = PyList xs" "xs \<noteq> []"
  shows "t = ''['' @ join '', '' (map (repr_text n h ml sd (level + 1) (insert a c)) xs) @ '']''"
proof -
  let ?rec = "safe_repr n h ml sd"
  have rec: "\<And>l x c r c'. ?rec l x c = Some (r, c') \<Longrightarrow> c' = c" by (rule safe_repr_ctx)
  have f: "(\<lambda>x. case ?rec (level + 1) x (insert a c) of None \<Rightarrow> [] | Some ((t, rd, rc), c') \<Rightarrow> t)
         = repr_text n h ml sd (level + 1) (insert a c)"
    by (simp add: repr_text_def fun_eq_iff)
  from r have body: "safe_repr_body ?rec h ml sd a c level = Some ((t, rd, rc), c')" by simp
  with l have s: "sequence_repr ?rec h ml a ''['' '']'' xs c level = Some ((t, rd, rc), c')"
    by (simp add: safe_repr_body_def)
  from sequence_repr_children [OF rec d a s] show ?thesis by (simp only: f)
qed

lemma safe_repr_tuple_text:
  assumes d: "\<not> depth_reached ml level" and a: "a \<notin> c"
    and r: "safe_repr (Suc n) h ml sd level a c = Some ((t, rd, rc), c')"
    and l: "h a = PyTuple xs" "xs \<noteq> []"
  shows "t = ''('' @ join '', '' (map (repr_text n h ml sd (level + 1) (insert a c)) xs) @
             (if length xs = 1 then '',)'' else '')'')"
proof -
  let ?rec = "safe_repr n h ml sd"
  let ?cl = "if length xs = 1 then '',)'' else '')''"
  have rec: "\<And>l x c r c'. ?rec l x c = Some (r, c') \<Longrightarrow> c' = c" by (rule safe_repr_ctx)
  have f: "(\<lambda>x. case ?rec (level + 1) x (insert a c) of None \<Rightarrow> [] | Some ((t, rd, rc), c') \<Rightarrow> t)
         = repr_text n h ml sd (level + 1) (insert a c)"
    by (simp add: repr_text_def fun_eq_iff)
  from r have body: "safe_repr_body ?rec h ml sd a c level = Some ((t, rd, rc), c')" by simp
  with l have s: "sequence_repr ?rec h ml a ''('' ?cl xs c level = Some ((t, rd, rc), c')"
    by (auto simp: safe_repr_body_def split: if_splits)
  from sequence_repr_children [OF rec d a s] show ?thesis by (simp only: f)
qed

lemma safe_repr_mapping_text:
  assumes d: "\<not> depth_reached ml level" and a: "a \<notin> c"
    and r: "safe_repr (Suc n) h ml sd level a c = Some ((t, rd, rc), c')"
    and m: "mapping_items (h a) = Some its" and ne: "nonempty (h a)"
  shows "\<exists>ordered. mset ordered = mset its \<and> (\<not> sd \<longrightarrow> ordered = its)
           \<and> t = ''{'' @ join '', ''
                 (map (\<lambda>kv. fst (atom_repr (key_atom (fst kv))) @ '': '' @
                          repr_text n h ml sd (level + 1) (insert a c) (snd kv)) ordered) @ ''}''"
proof -
  let ?rec = "safe_repr n h ml sd"
  have rec: "\<And>l x c r c'. ?rec l x c = Some (r, c') \<Longrightarrow> c' = c" by (rule safe_repr_ctx)
  have f: "(\<lambda>x. case ?rec (level + 1) x (insert a c) of None \<Rightarrow> [] | Some ((t, rd, rc), c') \<Rightarrow> t)
         = repr_text n h ml sd (level + 1) (insert a c)"
    by (simp add: repr_text_def fun_eq_iff)
  have i: "item_text g = (\<lambda>kv. fst (atom_repr (key_atom (fst kv))) @ '': '' @ g (snd kv))" for g
    by (simp add: item_text_def fun_eq_iff)
  from r have body: "safe_repr_body ?rec h ml sd a c level = Some ((t, rd, rc), c')" by simp
  let ?o = "if sd then py_sorted its else its"
  have "\<exists>e. \<not> e \<and> mapping_repr ?rec h ml sd a e its c level = Some ((t, rd, rc), c')"
    using body m ne by (cases "h a") (auto simp: safe_repr_body_def)
  then obtain e where e: "\<not> e"
    and mr: "mapping_repr ?rec h ml sd a e its c level = Some ((t, rd, rc), c')" by blast
  from mapping_repr_children [OF rec e d a mr]
  have "t = ''{'' @ join '', ''
                 (map (\<lambda>kv. fst (atom_repr (key_atom (fst kv))) @ '': '' @
                          repr_text n h ml sd (level + 1) (insert a c) (snd kv)) ?o) @ ''}''"
    by (simp only: f i)
  moreover have "mset ?o = mset its" by (simp add: mset_py_sorted)
  moreover have "\<not> sd \<longrightarrow> ?o = its" by simp
  ultimately show ?thesis by blast
qed

text \<open>
  Claim C2. For every heap with finitely many containers, every object, context, level
  and printer configuration:
  \<^item> the printer returns: from some bound on, every bound gives the same result, and
    the context after the call is the context before it;
  \<^item> an object that is reached while it is being rendered (it is in the context), is
    not empty and lies above the depth limit yields the text
    \<^verbatim>\<open><Recursion on T with id=N>\<close> and nothing else, unreadable and recursive, where
    \<^verbatim>\<open>T\<close> is \<^verbatim>\<open>dict\<close>, \<^verbatim>\<open>IDBObjectWrapper\<close>, \<^verbatim>\<open>list\<close> or \<^verbatim>\<open>tuple\<close>, the type of the
    object, and \<^verbatim>\<open>N\<close> the decimal text of its identity; nothing is rendered below it;
  \<^item> a container that is not being rendered is added to the context, and its text is
    its brackets around the texts of its children, each the text that child has on its
    own in that context: for a list or tuple the elements in their order, for a mapping
    the items in the order of the mapping when the printer does not sort, and in some
    rearrangement of them when it does. The container is removed on return, so an
    object that occurs twice among the children, or below two of them, is rendered in
    full each time.

  The printer of the program has no depth limit, so that \<open>depth_reached\<close> is false at
  every level. With a limit, an object at the limit is elided (\<^verbatim>\<open>{...}\<close>) before the
  context is looked at.
\<close>

theorem safe_repr_cycle_safe:
  assumes "finite {a. is_container (h a)}"
  shows "(\<exists>r. \<forall>n \<ge> card ({a. is_container (h a)} - context).
            safe_repr n h maxlevels sort_dicts level object context = Some (r, context))
       \<and> (\<not> depth_reached maxlevels level \<and> object \<in> context \<longrightarrow>
            (h object = PyDict items \<and> items \<noteq> [] \<longrightarrow>
               safe_repr n h maxlevels sort_dicts level object context =
                 Some ((''<Recursion on dict with id='' @ str_nat object @ ''>'', False, True),
                       context))
            \<and> (h object = IDBObjectWrapper store \<and> count_objects store \<noteq> 0 \<longrightarrow>
               safe_repr n h maxlevels sort_dicts level object context =
                 Some ((''<Recursion on IDBObjectWrapper with id='' @ str_nat object @ ''>'',
                        False, True), context))
            \<and> (h object = PyList elems \<and> elems \<noteq> [] \<longrightarrow>
               safe_repr n h maxlevels sort_dicts level object context =
                 Some ((''<Recursion on list with id='' @ str_nat object @ ''>'', False, True),
                       context))
            \<and> (h object = PyTuple elems \<and> elems \<noteq> [] \<longrightarrow>
               safe_repr n h maxlevels sort_dicts level object context =
                 Some ((''<Recursion on tuple with id='' @ str_nat object @ ''>'', False, True),
                       context)))
       \<and> (\<not> depth_reached maxlevels level \<and> object \<notin> context
            \<and> safe_repr (Suc n) h maxlevels sort_dicts level object context =
                Some ((text, readable, recursive), context') \<longrightarrow>
            context' = context
            \<and> (h object = PyList elems \<and> elems \<noteq> [] \<longrightarrow>
               text = ''['' @ join '', ''
                 (map (repr_text n h maxlevels sort_dicts (level + 1) (insert object context))
                    elems) @ '']'')
            \<and> (h object = PyTuple elems \<and> elems \<noteq> [] \<longrightarrow>
               text = ''('' @ join '', ''
                 (map (repr_text n h maxlevels sort_dicts (level + 1) (insert object context))
                    elems) @ (if length elems = 1 then '',)'' else '')''))
            \<and> (mapping_items (h object) = Some items \<and> nonempty (h object) \<longrightarrow>
               (\<exists>ordered. mset ordered = mset items \<and> (\<not> sort_dicts \<longrightarrow> ordered = items)
                  \<and> text = ''{'' @ join '', ''
                      (map (\<lambda>kv. fst (atom_repr (key_atom (fst kv))) @ '': '' @
                              repr_text n h maxlevels sort_dicts (level + 1)
                                (insert object context) (snd kv))
                         ordered) @ ''}'')))"
proof (intro conjI)
  let ?N = "card ({a. is_container (h a)} - context)"
  from assms have "?N \<le> ?N \<Longrightarrow>
      \<exists>r. safe_repr ?N h maxlevels sort_dicts level object context = Some (r, context)"
    by (rule safe_repr_total)
  then obtain r where r: "safe_repr ?N h maxlevels sort_dicts level object context = Some (r, context)"
    by blast
  have "\<forall>n \<ge> ?N. safe_repr n h maxlevels sort_dicts level object context = Some (r, context)"
    using r by (auto intro: safe_repr_mono)
  then show "\<exists>r. \<forall>n \<ge> ?N.
      safe_repr n h maxlevels sort_dicts level object context = Some (r, context)" ..
next
  show "\<not> depth_reached maxlevels level \<and> object \<in> context \<longrightarrow>
            (h object = PyDict items \<and> items \<noteq> [] \<longrightarrow>
               safe_repr n h maxlevels sort_dicts level object context =
                 Some ((''<Recursion on dict with id='' @ str_nat object @ ''>'', False, True),
                       context))
            \<and> (h object = IDBObjectWrapper store \<and> count_objects store \<noteq> 0 \<longrightarrow>
               safe_repr n h maxlevels sort_dicts level object context =
                 Some ((''<Recursion on IDBObjectWrapper with id='' @ str_nat object @ ''>'',
                        False, True), context))
            \<and> (h object = PyList elems \<and> elems \<noteq> [] \<longrightarrow>
               safe_repr n h maxlevels sort_dicts level object context =
                 Some ((''<Recursion on list with id='' @ str_nat object @ ''>'', False, True),
                       context))
            \<and> (h object = PyTuple elems \<and> elems \<noteq> [] \<longrightarrow>
               safe_repr n h maxlevels sort_dicts level object context =
                 Some ((''<Recursion on tuple with id='' @ str_nat object @ ''>'', False, True),
                       context))"
  proof
    assume "\<not> depth_reached maxlevels level \<and> object \<in> context"
    then have d: "\<not> depth_reached maxlevels level" and c: "object \<in> context" by simp_all
    from d c
    show "(h object = PyDict items \<and> items \<noteq> [] \<longrightarrow>
               safe_repr n h maxlevels sort_dicts level object context =
                 Some ((''<Recursion on dict with id='' @ str_nat object @ ''>'', False, True),
                       context))
            \<and> (h object = IDBObjectWrapper store \<and> count_objects store \<noteq> 0 \<longrightarrow>
               safe_repr n h maxlevels sort_dicts level object context =
                 Some ((''<Recursion on IDBObjectWrapper with id='' @ str_nat object @ ''>'',
                        False, True), context))
            \<and> (h object = PyList elems \<and> elems \<noteq> [] \<longrightarrow>
               safe_repr n h maxlevels sort_dicts level object context =
                 Some ((''<Recursion on list with id='' @ str_nat object @ ''>'', False, True),
                       context))
            \<and> (h object = PyTuple elems \<and> elems \<noteq> [] \<longrightarrow>
               safe_repr n h maxlevels sort_dicts level object context =
                 Some ((''<Recursion on tuple with id='' @ str_nat object @ ''>'', False, True),
                       context))"
      by (rule safe_repr_marker_text)
  qed
next
  show "\<not> depth_reached maxlevels level \<and> object \<notin> context
            \<and> safe_repr (Suc n) h maxlevels sort_dicts level object context =
                Some ((text, readable, recursive), context') \<longrightarrow>
            context' = context
            \<and> (h object = PyList elems \<and> elems \<noteq> [] \<longrightarrow>
               text = ''['' @ join '', ''
                 (map (repr_text n h maxlevels sort_dicts (level + 1) (insert object context))
                    elems) @ '']'')
            \<and> (h object = PyTuple elems \<and> elems \<noteq> [] \<longrightarrow>
               text = ''('' @ join '', ''
                 (map (repr_text n h maxlevels sort_dicts (level + 1) (insert object context))
                    elems) @ (if length elems = 1 then '',)'' else '')''))
            \<and> (mapping_items (h object) = Some items \<and> nonempty (h object) \<longrightarrow>
               (\<exists>ordered. mset ordered = mset items \<and> (\<not> sort_dicts \<longrightarrow> ordered = items)
                  \<and> text = ''{'' @ join '', ''
                      (map (\<lambda>kv. fst (atom_repr (key_atom (fst kv))) @ '': '' @
                              repr_text n h maxlevels sort_dicts (level + 1)
                                (insert object context) (snd kv))
                         ordered) @ ''}''))"
  proof (intro impI conjI)
    assume a: "\<not> depth_reached maxlevels level \<and> object \<notin> context
            \<and> safe_repr (Suc n) h maxlevels sort_dicts level object context =
                Some ((text, readable, recursive), context')"
    then have d: "\<not> depth_reached maxlevels level" and c: "object \<notin> context"
      and r: "safe_repr (Suc n) h maxlevels sort_dicts level object context =
                Some ((text, readable, recursive), context')" by simp_all
    from r show "context' = context" by (rule safe_repr_ctx)
    {
      assume "h object = PyList elems \<and> elems \<noteq> []"
      then have l: "h object = PyList elems" "elems \<noteq> []" by simp_all
      from safe_repr_list_text [OF d c r l]
      show "text = ''['' @ join '', ''
                 (map (repr_text n h maxlevels sort_dicts (level + 1) (insert object context))
                    elems) @ '']''" .
    }
    {
      assume "h object = PyTuple elems \<and> elems \<noteq> []"
      then have l: "h object = PyTuple elems" "elems \<noteq> []" by simp_all
      from safe_repr_tuple_text [OF d c r l]
      show "text = ''('' @ join '', ''
                 (map (repr_text n h maxlevels sort_dicts (level + 1) (insert object context))
                    elems) @ (if length elems = 1 then '',)'' else '')'')" .
    }
    {
      assume "mapping_items (h object) = Some items \<and> nonempty (h object)"
      then have m: "mapping_items (h object) = Some items" and ne: "nonempty (h object)"
        by simp_all
      from safe_repr_mapping_text [OF d c r m ne]
      show "\<exists>ordered. mset ordered = mset items \<and> (\<not> sort_dicts \<longrightarrow> ordered = items)
                  \<and> text = ''{'' @ join '', ''
                      (map (\<lambda>kv. fst (atom_repr (key_atom (fst kv))) @ '': '' @
                              repr_text n h maxlevels sort_dicts (level + 1)
                                (insert object context) (snd kv))
                         ordered) @ ''}''" .
    }
  qed
qed


text \<open>
  Claim C2 on the dictionary 12 that holds itself and a tuple that holds it, on the list
  that holds itself and, twice, a dictionary, and on a projection: the marker of each of
  the four types with the identity of the object, one marker per cycle edge, and the
  shared dictionary in full at both places.
\<close>

theorem safe_repr_cycle_safe_witness:
  "finite {a. is_container (knot_heap a)}
   \<and> (\<exists>r. \<forall>n \<ge> card ({a. is_container (knot_heap a)} - {}).
         safe_repr n knot_heap None True 0 12 {} = Some (r, {}))
   \<and> safe_repr 0 knot_heap None True 1 12 {12} =
       Some ((''<Recursion on dict with id=12>'', False, True), {12})
   \<and> safe_repr 0 knot_heap None True 2 13 {12, 13} =
       Some ((''<Recursion on tuple with id=13>'', False, True), {12, 13})
   \<and> safe_repr 0 cyclic_heap None True 1 0 {0} =
       Some ((''<Recursion on list with id=0>'', False, True), {0})
   \<and> safe_repr 0 store_heap None True 1 1 {1} =
       Some ((''<Recursion on IDBObjectWrapper with id=1>'', False, True), {1})
   \<and> safe_repr (Suc 1) cyclic_heap None True 0 0 {} =
       Some ((''[<Recursion on list with id=0>, {\"b\": 3}, {\"b\": 3}]'', False, True), {})
   \<and> ''[<Recursion on list with id=0>, {\"b\": 3}, {\"b\": 3}]'' =
       ''['' @ join '', '' (map (repr_text 1 cyclic_heap None True (0 + 1) (insert 0 {})) [0, 1, 1]) @ '']''
   \<and> map (repr_text 1 cyclic_heap None True (0 + 1) (insert 0 {})) [0, 1, 1] =
       [''<Recursion on list with id=0>'', ''{\"b\": 3}'', ''{\"b\": 3}'']
   \<and> safe_repr (Suc 1) knot_heap None True 0 12 {} =
       Some ((''{\"pair\": (<Recursion on dict with id=12>,), \"self\": <Recursion on dict with id=12>}'', False, True), {})
   \<and> (\<exists>ordered. mset ordered = mset [((20, PyStr ''self''), 12), ((21, PyStr ''pair''), 13)]
         \<and> ''{\"pair\": (<Recursion on dict with id=12>,), \"self\": <Recursion on dict with id=12>}'' = ''{'' @ join '', ''
             (map (\<lambda>kv. fst (atom_repr (key_atom (fst kv))) @ '': '' @
                     repr_text 1 knot_heap None True (0 + 1) (insert 12 {}) (snd kv))
                ordered) @ ''}'')
   \<and> safe_repr (Suc 0) knot_heap None True 1 13 {12} =
       Some ((''(<Recursion on dict with id=12>,)'', False, True), {12})
   \<and> ''(<Recursion on dict with id=12>,)'' =
       ''('' @ join '', '' (map (repr_text 0 knot_heap None True (1 + 1) (insert 13 {12})) [12]) @
       (if length [12::nat] = 1 then '',)'' else '')'')"
proof -
  have "{a. is_container (knot_heap a)} \<subseteq> {12, 13}"
    by (auto simp: knot_heap_def split: if_splits)
  then have fk: "finite {a. is_container (knot_heap a)}"
    by (rule finite_subset) simp
  have "{a. is_container (cyclic_heap a)} \<subseteq> {0, 1}"
    by (auto simp: cyclic_heap_def split: if_splits)
  then have fc: "finite {a. is_container (cyclic_heap a)}"
    by (rule finite_subset) simp
  have "{a. is_container (store_heap a)} \<subseteq> {0, 1, 3}"
    by (auto simp: store_heap_def split: if_splits)
  then have fs: "finite {a. is_container (store_heap a)}"
    by (rule finite_subset) simp
  have d: "\<not> depth_reached None l" for l by (simp add: depth_reached_def)
  have k12: "knot_heap 12 = PyDict [((20, PyStr ''self''), 12), ((21, PyStr ''pair''), 13)]"
    and k13: "knot_heap 13 = PyTuple [12]"
    by (simp_all add: knot_heap_def)
  have c0: "cyclic_heap 0 = PyList [0, 1, 1]" by (simp add: cyclic_heap_def)
  have w1: "store_heap 1 = IDBObjectWrapper [((10, PyStr ''k''), 2), ((11, PyInt 7), 3)]"
    by (simp add: store_heap_def)
  have s12: "str_nat 12 = ''12''" and s13: "str_nat 13 = ''13''" and s0: "str_nat 0 = ''0''"
    and s1: "str_nat 1 = ''1''"
    by code_simp+
  have el: "safe_repr (Suc 1) cyclic_heap None True 0 0 {} =
       Some ((''[<Recursion on list with id=0>, {\"b\": 3}, {\"b\": 3}]'', False, True), {})"
    by code_simp
  have cl: "map (repr_text 1 cyclic_heap None True (0 + 1) (insert 0 {})) [0, 1, 1] =
       [''<Recursion on list with id=0>'', ''{\"b\": 3}'', ''{\"b\": 3}'']"
    by code_simp
  have ed: "safe_repr (Suc 1) knot_heap None True 0 12 {} =
       Some ((''{\"pair\": (<Recursion on dict with id=12>,), \"self\": <Recursion on dict with id=12>}'', False, True), {})"
    by code_simp
  have et: "safe_repr (Suc 0) knot_heap None True 1 13 {12} =
       Some ((''(<Recursion on dict with id=12>,)'', False, True), {12})"
    by code_simp
  note t1 = safe_repr_cycle_safe [OF fk, of "{}" None True 0 12]
  note t2 = safe_repr_cycle_safe [OF fk, of "{12}" None True 1 12 "[((20, PyStr ''self''), 12), ((21, PyStr ''pair''), 13)]" 0]
  note t3 = safe_repr_cycle_safe [OF fk, of "{12, 13}" None True 2 13 _ 0 _ "[12]"]
  note t4 = safe_repr_cycle_safe [OF fc, of "{0}" None True 1 0 _ 0 _ "[0, 1, 1]"]
  note t5 = safe_repr_cycle_safe [OF fs, of "{1}" None True 1 1 _ 0
      "[((10, PyStr ''k''), 2), ((11, PyInt 7), 3)]"]
  note t6 = safe_repr_cycle_safe [OF fc, of "{}" None True 0 0 _ 1 _ "[0, 1, 1]"
      "''[<Recursion on list with id=0>, {\"b\": 3}, {\"b\": 3}]''" False True "{}"]
  note t7 = safe_repr_cycle_safe [OF fk, of "{}" None True 0 12 "[((20, PyStr ''self''), 12), ((21, PyStr ''pair''), 13)]" 1 _ _
      "''{\"pair\": (<Recursion on dict with id=12>,), \"self\": <Recursion on dict with id=12>}''" False True "{}"]
  note t8 = safe_repr_cycle_safe [OF fk, of "{12}" None True 1 13 _ 0 _ "[12]"
      "''(<Recursion on dict with id=12>,)''" False True "{12}"]
  from t1 have 1: "\<exists>r. \<forall>n \<ge> card ({a. is_container (knot_heap a)} - {}).
         safe_repr n knot_heap None True 0 12 {} = Some (r, {})" by (rule conjunct1)
  from t2 d s12 k12 have 2: "safe_repr 0 knot_heap None True 1 12 {12} =
       Some ((''<Recursion on dict with id=12>'', False, True), {12})"
    by (simp del: safe_repr.simps)
  from t3 d s13 k13 have 3: "safe_repr 0 knot_heap None True 2 13 {12, 13} =
       Some ((''<Recursion on tuple with id=13>'', False, True), {12, 13})"
    by (simp del: safe_repr.simps)
  from t4 d s0 c0 have 4: "safe_repr 0 cyclic_heap None True 1 0 {0} =
       Some ((''<Recursion on list with id=0>'', False, True), {0})"
    by (simp del: safe_repr.simps)
  from t5 d s1 w1 have 5: "safe_repr 0 store_heap None True 1 1 {1} =
       Some ((''<Recursion on IDBObjectWrapper with id=1>'', False, True), {1})"
    by (simp del: safe_repr.simps add: count_objects_def)
  from t6 d el c0 have 6: "''[<Recursion on list with id=0>, {\"b\": 3}, {\"b\": 3}]'' =
       ''['' @ join '', '' (map (repr_text 1 cyclic_heap None True (0 + 1) (insert 0 {})) [0, 1, 1]) @ '']''"
    by (simp del: safe_repr.simps)
  from t7 d ed k12 have 7: "(\<exists>ordered. mset ordered = mset [((20, PyStr ''self''), 12), ((21, PyStr ''pair''), 13)]
         \<and> ''{\"pair\": (<Recursion on dict with id=12>,), \"self\": <Recursion on dict with id=12>}'' = ''{'' @ join '', ''
             (map (\<lambda>kv. fst (atom_repr (key_atom (fst kv))) @ '': '' @
                     repr_text 1 knot_heap None True (0 + 1) (insert 12 {}) (snd kv))
                ordered) @ ''}'')"
    by (simp del: safe_repr.simps)
  from t8 d et k13 have 8: "''(<Recursion on dict with id=12>,)'' =
       ''('' @ join '', '' (map (repr_text 0 knot_heap None True (1 + 1) (insert 13 {12})) [12]) @
       (if length [12::nat] = 1 then '',)'' else '')'')"
    by (simp del: safe_repr.simps)
  from fk 1 2 3 4 5 el 6 cl ed 7 et 8 show ?thesis by (intro conjI)
qed

text \<open>
  Claim C9. An empty dictionary, projection, list or tuple renders as \<^verbatim>\<open>{}\<close>,
  \<^verbatim>\<open>{}\<close>, \<^verbatim>\<open>[]\<close> or \<^verbatim>\<open>()\<close>, readable and not recursive, for every depth limit and
  level (also at or beyond the limit), for every context (also one that holds the
  object), and with every bound on the recursion (also none).
\<close>

theorem empty_containers:
  "(h object = PyDict [] \<longrightarrow>
      safe_repr n h maxlevels sort_dicts level object context = Some ((''{}'', True, False), context))
   \<and> (h object = IDBObjectWrapper store \<and> count_objects store = 0 \<longrightarrow>
      safe_repr n h maxlevels sort_dicts level object context = Some ((''{}'', True, False), context))
   \<and> (h object = PyList [] \<longrightarrow>
      safe_repr n h maxlevels sort_dicts level object context = Some ((''[]'', True, False), context))
   \<and> (h object = PyTuple [] \<longrightarrow>
      safe_repr n h maxlevels sort_dicts level object context = Some ((''()'', True, False), context))"
  using safe_repr_empty [of h "object" n maxlevels sort_dicts level "context"]
  by auto

text \<open>Claim C9 at level 5 of a printer with depth limit 1, every object being in the context.\<close>

theorem empty_containers_witness:
  "safe_repr 0 empties_heap (Some 1) True 5 0 {0, 1, 2, 3} = Some ((''{}'', True, False), {0, 1, 2, 3})
   \<and> safe_repr 0 empties_heap (Some 1) True 5 3 {0, 1, 2, 3} = Some ((''{}'', True, False), {0, 1, 2, 3})
   \<and> safe_repr 0 empties_heap (Some 1) True 5 1 {0, 1, 2, 3} = Some ((''[]'', True, False), {0, 1, 2, 3})
   \<and> safe_repr 0 empties_heap (Some 1) True 5 2 {0, 1, 2, 3} = Some ((''()'', True, False), {0, 1, 2, 3})
   \<and> depth_reached (Some 1) 5"
  using empty_containers [of empties_heap 0 0 "Some 1" True 5 "{0, 1, 2, 3}"]
    empty_containers [of empties_heap 3 0 "Some 1" True 5 "{0, 1, 2, 3}" "[]"]
    empty_containers [of empties_heap 1 0 "Some 1" True 5 "{0, 1, 2, 3}"]
    empty_containers [of empties_heap 2 0 "Some 1" True 5 "{0, 1, 2, 3}"]
  by (simp add: empties_heap_def count_objects_def depth_reached_def)

subsection \<open>The context matters only where it can be reached\<close>

lemma erase_ids_Cons:
  "erase_ids (x # xs) = erase_ids ys \<Longrightarrow>
     \<exists>y ys'. ys = y # ys' \<and> key_atom (fst y) = key_atom (fst x) \<and> snd y = snd x
       \<and> erase_ids xs = erase_ids ys'"
  by (cases ys) (auto simp: erase_ids_def)

lemma format_items_frame:
  assumes frame: "\<And>x c1 c2. x \<in> R \<Longrightarrow> c1 \<inter> R = c2 \<inter> R \<Longrightarrow>
      map_option fst (rec x c1) = map_option fst (rec x c2)"
    and restore: "\<And>x c r c'. rec x c = Some (r, c') \<Longrightarrow> c' = c"
  shows "erase_ids xs = erase_ids ys \<Longrightarrow> snd ` set xs \<subseteq> R \<Longrightarrow> c1 \<inter> R = c2 \<inter> R \<Longrightarrow>
    map_option fst (format_items rec xs st c1) = map_option fst (format_items rec ys st c2)"
proof (induction xs arbitrary: ys st)
  case Nil
  then have "ys = []" by (simp add: erase_ids_def)
  then show ?case by (cases st) simp
next
  case (Cons kv xs)
  obtain k v where kv: "kv = (k, v)" by (cases kv)
  from Cons.prems(1) obtain k' ys' where ys: "ys = (k', v) # ys'"
    and k': "key_atom k' = key_atom k" and e: "erase_ids xs = erase_ids ys'"
    using erase_ids_Cons [of kv xs ys] by (auto simp: kv)
  obtain comps rd rc where st: "st = (comps, rd, rc)" by (cases st)
  obtain kr krd krc where k: "atom_repr (key_atom k) = (kr, krd, krc)"
    by (cases "atom_repr (key_atom k)")
  from Cons.prems(2) have v: "v \<in> R" and xs: "snd ` set xs \<subseteq> R" by (auto simp: kv)
  from v Cons.prems(3) have fr: "map_option fst (rec v c1) = map_option fst (rec v c2)"
    by (rule frame)
  show ?case
  proof (cases "rec v c1")
    case None
    with fr have "rec v c2 = None" by simp
    with None show ?thesis by (simp add: kv ys st k k')
  next
    case (Some a)
    obtain t c1' where a: "a = (t, c1')" by (cases a)
    with Some have "c1' = c1" using restore by blast
    with Some a have 1: "rec v c1 = Some (t, c1)" by simp
    with fr obtain c2' where "rec v c2 = Some (t, c2')" by (cases "rec v c2") auto
    moreover from this have "c2' = c2" by (rule restore)
    ultimately have 2: "rec v c2 = Some (t, c2)" by simp
    obtain vr vrd vrc where t: "t = (vr, vrd, vrc)" by (cases t)
    from Cons.IH [OF e xs Cons.prems(3)] 1 2 show ?thesis
      by (simp add: kv ys st k k' t)
  qed
qed

lemma format_elems_frame:
  assumes frame: "\<And>x c1 c2. x \<in> R \<Longrightarrow> c1 \<inter> R = c2 \<inter> R \<Longrightarrow>
      map_option fst (rec x c1) = map_option fst (rec x c2)"
    and restore: "\<And>x c r c'. rec x c = Some (r, c') \<Longrightarrow> c' = c"
  shows "set xs \<subseteq> R \<Longrightarrow> c1 \<inter> R = c2 \<inter> R \<Longrightarrow>
    map_option fst (format_elems rec xs st c1) = map_option fst (format_elems rec xs st c2)"
proof (induction xs arbitrary: st)
  case Nil
  then show ?case by (cases st) simp
next
  case (Cons v xs)
  obtain comps rd rc where st: "st = (comps, rd, rc)" by (cases st)
  from Cons.prems(1) have v: "v \<in> R" and xs: "set xs \<subseteq> R" by auto
  from v Cons.prems(2) have fr: "map_option fst (rec v c1) = map_option fst (rec v c2)"
    by (rule frame)
  show ?case
  proof (cases "rec v c1")
    case None
    with fr have "rec v c2 = None" by simp
    with None show ?thesis by (simp add: st)
  next
    case (Some a)
    obtain t c1' where a: "a = (t, c1')" by (cases a)
    with Some have "c1' = c1" using restore by blast
    with Some a have 1: "rec v c1 = Some (t, c1)" by simp
    with fr obtain c2' where "rec v c2 = Some (t, c2')" by (cases "rec v c2") auto
    moreover from this have "c2' = c2" by (rule restore)
    ultimately have 2: "rec v c2 = Some (t, c2)" by simp
    obtain vr vrd vrc where t: "t = (vr, vrd, vrc)" by (cases t)
    from Cons.IH [OF xs Cons.prems(2)] 1 2 show ?thesis
      by (simp add: st t)
  qed
qed

lemma set_insert_item: "set (insert_item x ys) = insert x (set ys)"
  by (induction ys) auto

lemma set_py_sorted: "set (py_sorted xs) = set xs"
  by (induction xs) (simp_all add: py_sorted_def set_insert_item)

lemma mapping_repr_frame:
  assumes frame: "\<And>l x c1 c2. x \<in> R \<Longrightarrow> c1 \<inter> R = c2 \<inter> R \<Longrightarrow>
      map_option fst (rec l x c1) = map_option fst (rec l x c2)"
    and restore: "\<And>l x c r c'. rec l x c = Some (r, c') \<Longrightarrow> c' = c"
    and items: "erase_ids (if sd then py_sorted its1 else its1) =
                erase_ids (if sd then py_sorted its2 else its2)"
    and sub: "snd ` set its1 \<subseteq> R"
    and ctx: "insert a c1 \<inter> R = insert b c2 \<inter> R" "(a \<in> c1) = (b \<in> c2)"
    and marker: "a \<in> c1 \<longrightarrow> recursion h a = recursion h b"
  shows "map_option fst (mapping_repr rec h ml sd a e its1 c1 level) =
         map_option fst (mapping_repr rec h ml sd b e its2 c2 level)"
proof (cases "e \<or> depth_reached ml level \<or> a \<in> c1")
  case True
  with ctx(2) marker show ?thesis by (auto simp: mapping_repr_def)
next
  case False
  let ?o1 = "if sd then py_sorted its1 else its1"
  let ?o2 = "if sd then py_sorted its2 else its2"
  from sub have sub': "snd ` set ?o1 \<subseteq> R" by (simp add: set_py_sorted)
  let ?F1 = "format_items (rec (level + 1)) ?o1 ([], True, False) (insert a c1)"
  let ?F2 = "format_items (rec (level + 1)) ?o2 ([], True, False) (insert b c2)"
  have fr: "\<And>x c1 c2. x \<in> R \<Longrightarrow> c1 \<inter> R = c2 \<inter> R \<Longrightarrow>
      map_option fst (rec (level + 1) x c1) = map_option fst (rec (level + 1) x c2)"
    by (rule frame)
  have rs: "\<And>x c r c'. rec (level + 1) x c = Some (r, c') \<Longrightarrow> c' = c"
    by (rule restore)
  have eq: "map_option fst ?F1 = map_option fst ?F2"
    using fr rs items sub' ctx(1) by (rule format_items_frame)
  from False ctx(2) have nb: "\<not> (e \<or> depth_reached ml level \<or> b \<in> c2)" by simp
  show ?thesis
  proof (cases ?F1)
    case None
    with eq have "?F2 = None" by simp
    with None False nb show ?thesis by (simp add: mapping_repr_def)
  next
    case (Some r1)
    obtain comps rd rc c1' where r1: "r1 = ((comps, rd, rc), c1')" by (cases r1) auto
    with Some eq obtain c2' where "?F2 = Some ((comps, rd, rc), c2')" by (cases ?F2) auto
    with Some r1 False nb show ?thesis by (simp add: mapping_repr_def)
  qed
qed

lemma sequence_repr_frame:
  assumes frame: "\<And>l x c1 c2. x \<in> R \<Longrightarrow> c1 \<inter> R = c2 \<inter> R \<Longrightarrow>
      map_option fst (rec l x c1) = map_option fst (rec l x c2)"
    and restore: "\<And>l x c r c'. rec l x c = Some (r, c') \<Longrightarrow> c' = c"
    and sub: "set xs \<subseteq> R"
    and ctx: "insert a c1 \<inter> R = insert a c2 \<inter> R" "(a \<in> c1) = (a \<in> c2)"
  shows "map_option fst (sequence_repr rec h ml a op cl xs c1 level) =
         map_option fst (sequence_repr rec h ml a op cl xs c2 level)"
proof (cases "depth_reached ml level \<or> a \<in> c1")
  case True
  with ctx(2) show ?thesis by (auto simp: sequence_repr_def)
next
  case False
  let ?F1 = "format_elems (rec (level + 1)) xs ([], True, False) (insert a c1)"
  let ?F2 = "format_elems (rec (level + 1)) xs ([], True, False) (insert a c2)"
  have fr: "\<And>x c1 c2. x \<in> R \<Longrightarrow> c1 \<inter> R = c2 \<inter> R \<Longrightarrow>
      map_option fst (rec (level + 1) x c1) = map_option fst (rec (level + 1) x c2)"
    by (rule frame)
  have rs: "\<And>x c r c'. rec (level + 1) x c = Some (r, c') \<Longrightarrow> c' = c"
    by (rule restore)
  have eq: "map_option fst ?F1 = map_option fst ?F2"
    using fr rs sub ctx(1) by (rule format_elems_frame)
  from False ctx(2) have nb: "\<not> (depth_reached ml level \<or> a \<in> c2)" by simp
  show ?thesis
  proof (cases ?F1)
    case None
    with eq have "?F2 = None" by simp
    with None False nb show ?thesis by (simp add: sequence_repr_def)
  next
    case (Some r1)
    obtain comps rd rc c1' where r1: "r1 = ((comps, rd, rc), c1')" by (cases r1) auto
    with Some eq obtain c2' where "?F2 = Some ((comps, rd, rc), c2')" by (cases ?F2) auto
    with Some r1 False nb show ?thesis by (simp add: sequence_repr_def)
  qed
qed

lemma safe_repr_body_frame:
  assumes frame: "\<And>l x c1 c2. x \<in> R \<Longrightarrow> c1 \<inter> R = c2 \<inter> R \<Longrightarrow>
      map_option fst (rec l x c1) = map_option fst (rec l x c2)"
    and restore: "\<And>l x c r c'. rec l x c = Some (r, c') \<Longrightarrow> c' = c"
    and closed: "closed h R" and a: "a \<in> R" and c: "c1 \<inter> R = c2 \<inter> R"
  shows "map_option fst (safe_repr_body rec h ml sd a c1 level) =
         map_option fst (safe_repr_body rec h ml sd a c2 level)"
proof -
  from a c have ctx: "insert a c1 \<inter> R = insert a c2 \<inter> R" "(a \<in> c1) = (a \<in> c2)" by auto
  from closed a have ch: "set (children (h a)) \<subseteq> R" by (simp add: closed_def)
  have m: "a \<in> c1 \<longrightarrow> recursion h a = recursion h a" by simp
  show ?thesis
  proof (cases "h a")
    case (Atom x)
    then show ?thesis by (simp add: safe_repr_body_def)
  next
    case (PyDict its)
    with ch have "snd ` set its \<subseteq> R" by simp
    have "map_option fst (mapping_repr rec h ml sd a (its = []) its c1 level) =
          map_option fst (mapping_repr rec h ml sd a (its = []) its c2 level)"
    proof (rule mapping_repr_frame [where R = R])
      show "\<And>l x c1 c2. x \<in> R \<Longrightarrow> c1 \<inter> R = c2 \<inter> R \<Longrightarrow>
          map_option fst (rec l x c1) = map_option fst (rec l x c2)"
        by (rule frame)
      show "\<And>l x c r c'. rec l x c = Some (r, c') \<Longrightarrow> c' = c" by (rule restore)
      show "snd ` set (its) \<subseteq> R" by fact
    qed (use ctx in simp_all)
    with PyDict show ?thesis by (simp add: safe_repr_body_def)
  next
    case (IDBObjectWrapper store)
    with ch have "snd ` set (read_objects store) \<subseteq> R" by simp
    have "map_option fst (mapping_repr rec h ml sd a (count_objects store = 0) (read_objects store) c1 level) =
          map_option fst (mapping_repr rec h ml sd a (count_objects store = 0) (read_objects store) c2 level)"
    proof (rule mapping_repr_frame [where R = R])
      show "\<And>l x c1 c2. x \<in> R \<Longrightarrow> c1 \<inter> R = c2 \<inter> R \<Longrightarrow>
          map_option fst (rec l x c1) = map_option fst (rec l x c2)"
        by (rule frame)
      show "\<And>l x c r c'. rec l x c = Some (r, c') \<Longrightarrow> c' = c" by (rule restore)
      show "snd ` set (read_objects store) \<subseteq> R" by fact
    qed (use ctx in simp_all)
    with IDBObjectWrapper show ?thesis by (simp add: safe_repr_body_def)
  next
    case (PyList xs)
    with ch have "set xs \<subseteq> R" by simp
    have "map_option fst (sequence_repr rec h ml a op cl xs c1 level) =
          map_option fst (sequence_repr rec h ml a op cl xs c2 level)" for op cl
    proof (rule sequence_repr_frame [where R = R])
      show "\<And>l x c1 c2. x \<in> R \<Longrightarrow> c1 \<inter> R = c2 \<inter> R \<Longrightarrow>
          map_option fst (rec l x c1) = map_option fst (rec l x c2)"
        by (rule frame)
      show "\<And>l x c r c'. rec l x c = Some (r, c') \<Longrightarrow> c' = c" by (rule restore)
      show "set xs \<subseteq> R" by fact
    qed (use ctx in simp_all)
    with PyList show ?thesis by (simp add: safe_repr_body_def)
  next
    case (PyTuple xs)
    with ch have "set xs \<subseteq> R" by simp
    have "map_option fst (sequence_repr rec h ml a op cl xs c1 level) =
          map_option fst (sequence_repr rec h ml a op cl xs c2 level)" for op cl
    proof (rule sequence_repr_frame [where R = R])
      show "\<And>l x c1 c2. x \<in> R \<Longrightarrow> c1 \<inter> R = c2 \<inter> R \<Longrightarrow>
          map_option fst (rec l x c1) = map_option fst (rec l x c2)"
        by (rule frame)
      show "\<And>l x c r c'. rec l x c = Some (r, c') \<Longrightarrow> c' = c" by (rule restore)
      show "set xs \<subseteq> R" by fact
    qed (use ctx in simp_all)
    with PyTuple show ?thesis by (simp add: safe_repr_body_def)
  qed
qed

lemma safe_repr_frame:
  assumes "closed h R"
  shows "x \<in> R \<Longrightarrow> c1 \<inter> R = c2 \<inter> R \<Longrightarrow>
    map_option fst (safe_repr n h ml sd level x c1) = map_option fst (safe_repr n h ml sd level x c2)"
proof (induction n arbitrary: level x c1 c2)
  case 0
  have "map_option fst (safe_repr_body (\<lambda>l x c. None) h ml sd x c1 level) =
        map_option fst (safe_repr_body (\<lambda>l x c. None) h ml sd x c2 level)"
    using assms 0 by (intro safe_repr_body_frame [where R = R]) simp_all
  then show ?case by simp
next
  case (Suc n)
  have "map_option fst (safe_repr_body (safe_repr n h ml sd) h ml sd x c1 level) =
        map_option fst (safe_repr_body (safe_repr n h ml sd) h ml sd x c2 level)"
    using assms Suc.prems
    by (intro safe_repr_body_frame [where R = R]) (auto intro: Suc.IH dest: safe_repr_ctx)
  then show ?case by simp
qed

subsection \<open>Sorting without the identities\<close>

lemma py_lt_None_sym: "(py_lt x y = None) = (py_lt y x = None)"
  by (cases x; cases y) (simp_all split: option.splits)

lemma safe_key_lt_atoms:
  assumes "key_atom k1 = key_atom k1'" and "key_atom k2 = key_atom k2'"
    and "py_lt (key_atom k1) (key_atom k2) = None \<longrightarrow>
           type_str (key_atom k1) \<noteq> type_str (key_atom k2)"
  shows "safe_key_lt k1 k2 = safe_key_lt k1' k2'"
  using assms by (auto simp: safe_key_lt_def split: option.splits)

lemma insert_item_erase:
  assumes "key_atom (fst x1) = key_atom (fst x2)" and "snd x1 = snd x2"
  shows "erase_ids ys1 = erase_ids ys2 \<Longrightarrow>
    \<forall>y \<in> set ys1. py_lt (key_atom (fst y)) (key_atom (fst x1)) = None \<longrightarrow>
        type_str (key_atom (fst y)) \<noteq> type_str (key_atom (fst x1)) \<Longrightarrow>
    erase_ids (insert_item x1 ys1) = erase_ids (insert_item x2 ys2)"
proof (induction ys1 arbitrary: ys2)
  case Nil
  then have "ys2 = []" by (simp add: erase_ids_def)
  with assms show ?case by (simp add: erase_ids_def)
next
  case (Cons y1 ys1)
  from Cons.prems(1) obtain y2 ys2' where ys2: "ys2 = y2 # ys2'"
    and y: "key_atom (fst y2) = key_atom (fst y1)" "snd y2 = snd y1"
    and e: "erase_ids ys1 = erase_ids ys2'"
    using erase_ids_Cons [of y1 ys1 ys2] by auto
  from Cons.prems(2) have "py_lt (key_atom (fst y1)) (key_atom (fst x1)) = None \<longrightarrow>
      type_str (key_atom (fst y1)) \<noteq> type_str (key_atom (fst x1))" by simp
  with y(1) assms(1) have lt: "safe_key_lt (fst y1) (fst x1) = safe_key_lt (fst y2) (fst x2)"
    by (intro safe_key_lt_atoms) simp_all
  from Cons.prems(2) have "\<forall>y \<in> set ys1. py_lt (key_atom (fst y)) (key_atom (fst x1)) = None \<longrightarrow>
        type_str (key_atom (fst y)) \<noteq> type_str (key_atom (fst x1))" by simp
  with e have "erase_ids (insert_item x1 ys1) = erase_ids (insert_item x2 ys2')"
    by (rule Cons.IH)
  with lt y assms Cons.prems(1) show ?case by (simp add: ys2 erase_ids_def)
qed

lemma py_sorted_erase:
  "erase_ids its1 = erase_ids its2 \<Longrightarrow> names_decide its1 \<Longrightarrow>
     erase_ids (py_sorted its1) = erase_ids (py_sorted its2)"
proof (induction its1 arbitrary: its2)
  case Nil
  then have "its2 = []" by (simp add: erase_ids_def)
  then show ?case by simp
next
  case (Cons x1 its1)
  from Cons.prems(1) obtain x2 its2' where its2: "its2 = x2 # its2'"
    and x: "key_atom (fst x2) = key_atom (fst x1)" "snd x2 = snd x1"
    and e: "erase_ids its1 = erase_ids its2'"
    using erase_ids_Cons [of x1 its1 its2] by auto
  from Cons.prems(2) have nd: "names_decide its1"
    and hd: "\<forall>y \<in> set its1. py_lt (key_atom (fst x1)) (key_atom (fst y)) = None \<longrightarrow>
        type_str (key_atom (fst x1)) \<noteq> type_str (key_atom (fst y))"
    by (auto simp: names_decide_def)
  from e nd have s: "erase_ids (py_sorted its1) = erase_ids (py_sorted its2')" by (rule Cons.IH)
  from hd have "\<forall>y \<in> set (py_sorted its1). py_lt (key_atom (fst y)) (key_atom (fst x1)) = None \<longrightarrow>
        type_str (key_atom (fst y)) \<noteq> type_str (key_atom (fst x1))"
    using py_lt_None_sym by (auto simp: set_py_sorted)
  with x [symmetric] s have "erase_ids (insert_item x1 (py_sorted its1)) =
      erase_ids (insert_item x2 (py_sorted its2'))"
    by (intro insert_item_erase) simp_all
  then show ?case by (simp add: its2 py_sorted_def)
qed

subsection \<open>Two mappings with the same items\<close>

lemma safe_repr_stable:
  assumes "finite {a. is_container (h a)}"
  shows "\<exists>r. \<forall>n \<ge> card ({a. is_container (h a)} - c).
           safe_repr n h ml sd level a c = Some (r, c)"
proof -
  let ?N = "card ({a. is_container (h a)} - c)"
  from assms have "?N \<le> ?N \<Longrightarrow> \<exists>r. safe_repr ?N h ml sd level a c = Some (r, c)"
    by (rule safe_repr_total)
  then obtain r where r: "safe_repr ?N h ml sd level a c = Some (r, c)" by blast
  have "\<forall>n \<ge> ?N. safe_repr n h ml sd level a c = Some (r, c)"
    using r by (auto intro: safe_repr_mono)
  then show ?thesis ..
qed

lemma safe_repr_body_mapping:
  "mapping_items (h a) = Some its \<Longrightarrow>
     safe_repr_body rec h ml sd a c level = mapping_repr rec h ml sd a (its = []) its c level"
  by (cases "h a") (auto simp: safe_repr_body_def count_objects_def read_objects_def)

lemma erase_ids_empty: "erase_ids xs = erase_ids ys \<Longrightarrow> (xs = []) = (ys = [])"
  by (auto simp: erase_ids_def)

lemma erase_ids_order:
  assumes "erase_ids its1 = erase_ids its2" and "sd \<longrightarrow> names_decide its1"
  shows "erase_ids (if sd then py_sorted its1 else its1) =
         erase_ids (if sd then py_sorted its2 else its2)"
  using assms by (simp add: py_sorted_erase)

lemma two_mappings_body:
  assumes frame: "\<And>l x c1 c2. x \<in> R \<Longrightarrow> c1 \<inter> R = c2 \<inter> R \<Longrightarrow>
      map_option fst (rec l x c1) = map_option fst (rec l x c2)"
    and restore: "\<And>l x c r c'. rec l x c = Some (r, c') \<Longrightarrow> c' = c"
    and a: "mapping_items (h a) = Some its1" and b: "mapping_items (h b) = Some its2"
    and items: "erase_ids (if sd then py_sorted its1 else its1) =
                erase_ids (if sd then py_sorted its2 else its2)"
               "(its1 = []) = (its2 = [])"
    and sub: "snd ` set its1 \<subseteq> R"
    and out: "a \<notin> R" "b \<notin> R" "a \<notin> c" "b \<notin> c"
  shows "map_option fst (safe_repr_body rec h ml sd a c level) =
         map_option fst (safe_repr_body rec h ml sd b c level)"
proof -
  have "map_option fst (mapping_repr rec h ml sd a (its1 = []) its1 c level) =
        map_option fst (mapping_repr rec h ml sd b (its1 = []) its2 c level)"
  proof (rule mapping_repr_frame [where R = R])
    show "\<And>l x c1 c2. x \<in> R \<Longrightarrow> c1 \<inter> R = c2 \<inter> R \<Longrightarrow>
        map_option fst (rec l x c1) = map_option fst (rec l x c2)"
      by (rule frame)
    show "\<And>l x c r c'. rec l x c = Some (r, c') \<Longrightarrow> c' = c" by (rule restore)
    show "erase_ids (if sd then py_sorted its1 else its1) =
          erase_ids (if sd then py_sorted its2 else its2)"
      by (rule items(1))
    show "snd ` set its1 \<subseteq> R" by fact
  qed (use out in auto)
  with a b items(2) show ?thesis
    by (simp add: safe_repr_body_mapping)
qed

lemma two_mappings:
  assumes cl: "closed h R"
    and a: "mapping_items (h a) = Some its1" and b: "mapping_items (h b) = Some its2"
    and items: "erase_ids (if sd then py_sorted its1 else its1) =
                erase_ids (if sd then py_sorted its2 else its2)"
               "(its1 = []) = (its2 = [])"
    and sub: "snd ` set its1 \<subseteq> R"
    and out: "a \<notin> R" "b \<notin> R" "a \<notin> c" "b \<notin> c"
  shows "map_option fst (safe_repr n h ml sd level a c) =
         map_option fst (safe_repr n h ml sd level b c)"
proof (cases n)
  case 0
  have "map_option fst (safe_repr_body (\<lambda>l x c. None) h ml sd a c level) =
        map_option fst (safe_repr_body (\<lambda>l x c. None) h ml sd b c level)"
    using a b items sub out by (intro two_mappings_body [where R = R]) simp_all
  with 0 show ?thesis by simp
next
  case (Suc m)
  have "map_option fst (safe_repr_body (safe_repr m h ml sd) h ml sd a c level) =
        map_option fst (safe_repr_body (safe_repr m h ml sd) h ml sd b c level)"
    using a b items sub out
    by (intro two_mappings_body [where R = R])
      (auto intro: safe_repr_frame [OF cl] dest: safe_repr_ctx)
  with Suc show ?thesis by simp
qed

lemma two_mappings_total:
  assumes fin: "finite {x. is_container (h x)}"
    and eq: "\<And>n. map_option fst (safe_repr n h ml sd level a c) =
                 map_option fst (safe_repr n h ml sd level b c)"
  shows "\<exists>r. \<forall>n \<ge> card ({x. is_container (h x)} - c).
           safe_repr n h ml sd level a c = Some (r, c) \<and> safe_repr n h ml sd level b c = Some (r, c)"
proof -
  let ?N = "card ({x. is_container (h x)} - c)"
  from safe_repr_stable [OF fin] obtain ra where
    ra: "\<forall>n \<ge> ?N. safe_repr n h ml sd level a c = Some (ra, c)" by blast
  from safe_repr_stable [OF fin] obtain rb where
    rb: "\<forall>n \<ge> ?N. safe_repr n h ml sd level b c = Some (rb, c)" by blast
  from ra rb eq [of ?N] have "ra = rb" by simp
  with ra rb show ?thesis by blast
qed

text \<open>
  Claim C6. A projection whose store holds the items of a dictionary renders to the
  text of that dictionary, with the same flags, under every sort flag, depth limit and
  level, when neither of the two is being rendered and neither is reachable from the
  items (\<open>R\<close> is a closed set that holds the values and neither object). For every
  bound the two calls agree, and in a heap with finitely many containers both return,
  the same result, from the same bound on.
\<close>

theorem wrapper_renders_as_dict:
  assumes "h a = PyDict items" and "h b = IDBObjectWrapper store"
    and "read_objects store = items"
    and "closed h R" and "snd ` set items \<subseteq> R"
    and "a \<notin> R" and "b \<notin> R" and "a \<notin> context" and "b \<notin> context"
  shows "map_option fst (safe_repr n h maxlevels sort_dicts level b context) =
         map_option fst (safe_repr n h maxlevels sort_dicts level a context)
    \<and> (finite {x. is_container (h x)} \<longrightarrow>
         (\<exists>r. \<forall>n \<ge> card ({x. is_container (h x)} - context).
            safe_repr n h maxlevels sort_dicts level b context = Some (r, context)
            \<and> safe_repr n h maxlevels sort_dicts level a context = Some (r, context)))"
proof -
  have eq: "map_option fst (safe_repr n h maxlevels sort_dicts level b context) =
            map_option fst (safe_repr n h maxlevels sort_dicts level a context)" for n
    using assms
    by (intro two_mappings [where R = R and ?its1.0 = items and ?its2.0 = items]) simp_all
  show ?thesis
  proof (intro conjI impI)
    show "map_option fst (safe_repr n h maxlevels sort_dicts level b context) =
          map_option fst (safe_repr n h maxlevels sort_dicts level a context)"
      by (rule eq)
    assume "finite {x. is_container (h x)}"
    then show "\<exists>r. \<forall>n \<ge> card ({x. is_container (h x)} - context).
        safe_repr n h maxlevels sort_dicts level b context = Some (r, context)
        \<and> safe_repr n h maxlevels sort_dicts level a context = Some (r, context)"
      by (rule two_mappings_total) (rule eq)
  qed
qed

text \<open>Claim C6 on a dictionary and a projection of two items, one of them a list.\<close>

theorem wrapper_renders_as_dict_witness:
  "map_option fst (safe_repr 2 store_heap None True 0 1 {}) =
     Some (''{7: [true], \"k\": true}'', True, False)"
proof -
  have a: "store_heap 0 = PyDict [((10, PyStr ''k''), 2), ((11, PyInt 7), 3)]"
    and b: "store_heap 1 = IDBObjectWrapper [((10, PyStr ''k''), 2), ((11, PyInt 7), 3)]"
    by (simp_all add: store_heap_def)
  have s: "read_objects [((10 :: nat, PyStr ''k''), 2 :: nat), ((11, PyInt 7), 3)] =
      [((10, PyStr ''k''), 2), ((11, PyInt 7), 3)]"
    by (simp add: read_objects_def)
  have cl: "closed store_heap {2, 3}"
    by (simp add: closed_def store_heap_def)
  have sub: "snd ` set [((10 :: nat, PyStr ''k''), 2 :: nat), ((11, PyInt 7), 3)] \<subseteq> {2, 3}"
    by simp
  have d: "safe_repr 2 store_heap None True 0 0 {} =
      Some ((''{7: [true], \"k\": true}'', True, False), {})"
    by code_simp
  from wrapper_renders_as_dict [OF a b s cl sub, of "{}" 2 None True 0] d
  show ?thesis by simp
qed

text \<open>
  Claim C4, as amended. Two mappings with the same keys and values, held by key objects
  of other identities (as the keys of a second run are, and those of a projection read
  again), render sorted to the same text, when any two keys that cannot be compared
  have types of different names: the order of the items is then decided without the
  identities. The two calls agree for every bound, and in a heap with finitely many
  containers both return, the same result, from the same bound on.
\<close>

theorem sorted_text_without_identities:
  assumes "mapping_items (h a) = Some items1" and "mapping_items (h b) = Some items2"
    and "erase_ids items1 = erase_ids items2" and "names_decide items1"
    and "closed h R" and "snd ` set items1 \<subseteq> R"
    and "a \<notin> R" and "b \<notin> R" and "a \<notin> context" and "b \<notin> context"
  shows "map_option fst (safe_repr n h maxlevels True level a context) =
         map_option fst (safe_repr n h maxlevels True level b context)
    \<and> (finite {x. is_container (h x)} \<longrightarrow>
         (\<exists>r. \<forall>n \<ge> card ({x. is_container (h x)} - context).
            safe_repr n h maxlevels True level a context = Some (r, context)
            \<and> safe_repr n h maxlevels True level b context = Some (r, context)))"
proof -
  have ord: "erase_ids (if True then py_sorted items1 else items1) =
             erase_ids (if True then py_sorted items2 else items2)"
    using assms(3,4) by (simp add: py_sorted_erase)
  have emp: "(items1 = []) = (items2 = [])"
    using assms(3) by (rule erase_ids_empty)
  have eq: "map_option fst (safe_repr n h maxlevels True level a context) =
            map_option fst (safe_repr n h maxlevels True level b context)" for n
    using assms(5) assms(1,2) ord emp assms(6-10) by (rule two_mappings)
  show ?thesis
  proof (intro conjI impI)
    show "map_option fst (safe_repr n h maxlevels True level a context) =
          map_option fst (safe_repr n h maxlevels True level b context)"
      by (rule eq)
    assume "finite {x. is_container (h x)}"
    then show "\<exists>r. \<forall>n \<ge> card ({x. is_container (h x)} - context).
        safe_repr n h maxlevels True level a context = Some (r, context)
        \<and> safe_repr n h maxlevels True level b context = Some (r, context)"
      by (rule two_mappings_total) (rule eq)
  qed
qed

text \<open>The amended claim C4 on two dictionaries with the keys \<^verbatim>\<open>"k"\<close>, 7 and \<^verbatim>\<open>None\<close>.\<close>

theorem sorted_text_without_identities_witness:
  "map_option fst (safe_repr 1 mixed_heap None True 0 1 {}) =
     Some (''{null: 1, 7: 1, \"k\": 1}'', True, False)"
proof -
  have a: "mapping_items (mixed_heap 0) =
      Some [((10, PyStr ''k''), 2), ((11, PyInt 7), 2), ((12, PyNone), 2)]"
    and b: "mapping_items (mixed_heap 1) =
      Some [((22, PyStr ''k''), 2), ((21, PyInt 7), 2), ((20, PyNone), 2)]"
    by (simp_all add: mixed_heap_def)
  have e: "erase_ids [((10 :: nat, PyStr ''k''), 2 :: nat), ((11, PyInt 7), 2), ((12, PyNone), 2)] =
      erase_ids [((22, PyStr ''k''), 2), ((21, PyInt 7), 2), ((20, PyNone), 2)]"
    by (simp add: erase_ids_def key_atom_def)
  have nd: "names_decide [((10 :: nat, PyStr ''k''), 2 :: nat), ((11, PyInt 7), 2), ((12, PyNone), 2)]"
    by (simp add: names_decide_def key_atom_def type_str_def)
  have cl: "closed mixed_heap {2}"
    by (simp add: closed_def mixed_heap_def)
  have sub: "snd ` set [((10 :: nat, PyStr ''k''), 2 :: nat), ((11, PyInt 7), 2), ((12, PyNone), 2)] \<subseteq> {2}"
    by simp
  have d: "safe_repr 1 mixed_heap None True 0 0 {} =
      Some ((''{null: 1, 7: 1, \"k\": 1}'', True, False), {})"
    by code_simp
  from sorted_text_without_identities [OF a b e nd cl sub, of "{}" 1 None 0] d
  show ?thesis by simp
qed

text \<open>
  Claim C4 as stated fails for keys of one type without an ordering: the order of the
  items is the order of the identities of the keys, and the same mapping with its keys
  at other identities (the dictionaries 0 and 1 of \<open>symbols_heap\<close>, which stand for the
  mapping in a first and in a second run) renders to another text.
\<close>

theorem sorted_text_counterexample:
  "mapping_items (symbols_heap 0) =
     Some [((10, Opaque ''Symbol'' ''Symbol(a)''), 2), ((11, Opaque ''Symbol'' ''Symbol(b)''), 2)]
   \<and> mapping_items (symbols_heap 1) =
     Some [((21, Opaque ''Symbol'' ''Symbol(a)''), 2), ((20, Opaque ''Symbol'' ''Symbol(b)''), 2)]
   \<and> erase_ids [((10, Opaque ''Symbol'' ''Symbol(a)''), 2), ((11, Opaque ''Symbol'' ''Symbol(b)''), 2)] =
     erase_ids [((21, Opaque ''Symbol'' ''Symbol(a)''), 2), ((20, Opaque ''Symbol'' ''Symbol(b)''), 2)]
   \<and> safe_repr 1 symbols_heap None True 0 0 {} =
     Some ((''{Symbol(a): 1, Symbol(b): 1}'', True, False), {})
   \<and> safe_repr 1 symbols_heap None True 0 1 {} =
     Some ((''{Symbol(b): 1, Symbol(a): 1}'', True, False), {})"
  by code_simp

end
